theory Spec2Isabelle
  imports Main "HOL-Library.Product_Lexorder" "HOL-Library.AList"
begin

section \<open>Category normalisation\<close>

text \<open>
  \<^verbatim>\<open>AutosubmitSyncWorker._clean_model_name\<close>. A Python string is modelled as a
  \<^typ>\<open>string\<close>; the function only looks at the characters \<open>/\<close> and \<open>'\<close>,
  which are single bytes that never occur inside a multi-byte UTF-8 sequence.
\<close>

definition rstrip_slash :: "string \<Rightarrow> string" where
  "rstrip_slash s = rev (dropWhile (\<lambda>c. c = CHR ''/'') (rev s))"

definition startswith_quote :: "string \<Rightarrow> bool" where
  "startswith_quote s = (case s of [] \<Rightarrow> False | c # _ \<Rightarrow> c = CHR 0x27)"

definition endswith_quote :: "string \<Rightarrow> bool" where
  "endswith_quote s = (case rev s of [] \<Rightarrow> False | c # _ \<Rightarrow> c = CHR 0x27)"

definition clean_model_name :: "string \<Rightarrow> string" where
  "clean_model_name model_name =
     (if model_name = [] then model_name
      else let stripped = rstrip_slash model_name
           in if startswith_quote stripped \<and> endswith_quote stripped
              then butlast (tl stripped)
              else stripped)"


section \<open>Data model\<close>

text \<open>
  A naive Python \<^verbatim>\<open>datetime\<close> is the tuple of its fields
  (year, month, day, hour, minute, second, microsecond); tuples are ordered
  lexicographically, which is the order of naive datetimes.
\<close>

type_synonym datetime = "int \<times> nat \<times> nat \<times> nat \<times> nat \<times> nat \<times> nat"

definition datetime :: "int \<Rightarrow> nat \<Rightarrow> nat \<Rightarrow> datetime" where
  "datetime y m d = (y, m, d, 0, 0, 0, 0)"

text \<open>\<^verbatim>\<open>dt.replace(hour=0, minute=0, second=0, microsecond=0)\<close>\<close>

definition replace_midnight :: "datetime \<Rightarrow> datetime" where
  "replace_midnight dt = (case dt of (y, m, d, _) \<Rightarrow> (y, m, d, 0, 0, 0, 0))"

text \<open>
  The Python values that occur as identifiers of experiments: the \<^verbatim>\<open>int\<close> of
  a source row and the \<^verbatim>\<open>str\<close> read from the store. In Python an \<^verbatim>\<open>int\<close> is
  never equal to a \<^verbatim>\<open>str\<close>, so the two are kept apart in a set of ids.
\<close>

datatype py_value = PyInt int | PyStr string

text \<open>
  The text PostgreSQL stores when an integer is assigned to a \<^verbatim>\<open>VARCHAR\<close>
  column: its decimal digits, with a minus sign when it is negative.
\<close>

function decimal :: "nat \<Rightarrow> string" where
  "decimal n =
     (if n < 10 then [''0123456789'' ! n]
      else decimal (n div 10) @ [''0123456789'' ! (n mod 10)])"
  by pat_completeness auto
termination
  by (relation "measure (\<lambda>n. n)") auto

declare decimal.simps [simp del]

definition str_of_int :: "int \<Rightarrow> string" where
  "str_of_int i = (if i < 0 then CHR ''-'' # decimal (nat (- i)) else decimal (nat i))"

text \<open>
  A row of the extraction query: an \<^verbatim>\<open>ExperimentDetailDB\<close> joined with the
  \<^verbatim>\<open>name\<close> of its \<^verbatim>\<open>ExperimentDB\<close>. The dictionary \<^verbatim>\<open>exp_data\<close> built from it
  has the same keys, so the same record serves for both. \<^verbatim>\<open>credated\<close> is the
  value of the property of that name, \<^verbatim>\<open>None\<close> when the stored text is empty.
  \<^verbatim>\<open>exp_id\<close> is an \<^verbatim>\<open>int\<close>, as \<^verbatim>\<open>ExperimentDetailDB\<close> declares it.
\<close>

record exp_data =
  exp_id :: int
  user :: string
  model :: string
  branch :: string
  hpc :: string
  credated :: "datetime option"
  name :: string

text \<open>An entry of \<^verbatim>\<open>model_info["experiments"]\<close>.\<close>

record exp_entry =
  x_id :: int
  x_name :: string
  x_created_time :: datetime

text \<open>A value of the dictionary \<^verbatim>\<open>models_data\<close>.\<close>

record model_info =
  g_model :: string
  g_time :: datetime
  g_count :: int
  g_experiments :: "exp_entry list"

text \<open>
  \<^verbatim>\<open>models_data\<close> is a Python dictionary, iterated in insertion order: an
  association list whose new keys are appended.
\<close>

type_synonym models_data = "((datetime \<times> string) \<times> model_info) list"

text \<open>
  Rows of \<^verbatim>\<open>ExperimentTimeDB\<close> (table \<^verbatim>\<open>experiments\<close>); \<^verbatim>\<open>id\<close> is declared
  \<^verbatim>\<open>str\<close>, a \<^verbatim>\<open>VARCHAR\<close> column.
\<close>

record experiment_row =
  e_id :: string
  e_name :: string
  e_model :: string
  e_created_time :: datetime

text \<open>Rows of \<^verbatim>\<open>ModelPopularityTimeDB\<close> (table \<^verbatim>\<open>metric_models_popularity\<close>).\<close>

record popularity_row =
  p_time :: datetime
  p_model :: string
  p_count :: int
  p_total_count :: int
  p_extracted_time :: datetime

text \<open>Rows of \<^verbatim>\<open>PopularModelMaterializedViewTimeDB\<close>.\<close>

record view_row =
  v_model :: string
  v_count :: int
  v_last_updated :: datetime

text \<open>The committed state of the analytics store.\<close>

record db =
  db_experiments :: "experiment_row list"
  db_popularity :: "popularity_row list"
  db_view :: "view_row list"

datatype error =
  OperationalError | AttributeError | IntegrityError | DatabaseException

datatype event = Commit | Rollback | RefreshOk | RefreshFailed

text \<open>
  What the outside world does during one cycle: which calls fail, and in which
  order the database returns the rows of an \<^verbatim>\<open>ORDER BY extracted_time DESC\<close>
  query (SQL fixes that order only up to rows with equal \<^verbatim>\<open>extracted_time\<close>).
  \<open>write_fault = Some n\<close>: the \<open>n\<close>-th \<^verbatim>\<open>INSERT\<close> statement of the cycle raises.
\<close>

record env =
  source_fault :: bool
  write_fault :: "nat option"
  commit_fault :: bool
  refresh_fault_inner :: bool
  refresh_fault_outer :: bool
  order_by_desc :: "popularity_row list \<Rightarrow> popularity_row list"

text \<open>The fields of \<^verbatim>\<open>BaseWorker\<close> and \<^verbatim>\<open>AutosubmitSyncWorker\<close>.\<close>

record worker =
  interval_seconds :: nat
  is_running :: bool
  shared_timestamp :: "datetime option"
  invalid_model_values :: "string list"
  current_time :: datetime


section \<open>The worker\<close>

text \<open>
  \<^verbatim>\<open>AutosubmitSyncWorker.__init__\<close>: \<open>interval\<close> is \<^verbatim>\<open>AUTOSUBMIT_SYNC_INTERVAL\<close>,
  \<open>now\<close> the value of \<^verbatim>\<open>datetime.now()\<close> at construction.
\<close>

definition init_worker :: "nat \<Rightarrow> datetime \<Rightarrow> datetime option \<Rightarrow> worker" where
  "init_worker interval now current_time_arg =
     \<lparr>interval_seconds = interval, is_running = False, shared_timestamp = None,
      invalid_model_values = [''NA'', ''Blabla'', ''blabla''],
      current_time = (case current_time_arg of None \<Rightarrow> now | Some t \<Rightarrow> t)\<rparr>"

definition set_timestamp :: "datetime \<Rightarrow> worker \<Rightarrow> worker" where
  "set_timestamp timestamp w = w\<lparr>shared_timestamp := Some timestamp\<rparr>"

section \<open>Extraction and grouping\<close>

text \<open>
  \<^verbatim>\<open>_extract_autosubmit_experiments\<close>: the query keeps the rows whose \<^verbatim>\<open>model\<close>
  is not in \<^verbatim>\<open>invalid_model_values\<close>; each kept row is copied with its model
  cleaned. \<open>source\<close> is the content of the joined source tables.
\<close>

definition extract_autosubmit_experiments ::
  "worker \<Rightarrow> env \<Rightarrow> exp_data list \<Rightarrow> error + exp_data list" where
  "extract_autosubmit_experiments w ev source =
     (if source_fault ev then Inl OperationalError
      else Inr (map (\<lambda>detail. detail\<lparr>model := clean_model_name (model detail)\<rparr>)
                 (filter (\<lambda>detail. model detail \<notin> set (invalid_model_values w)) source)))"

text \<open>
  \<^verbatim>\<open>_process_experiments\<close>: the loop over the experiments.
  \<^verbatim>\<open>exp["credated"].replace\<close> raises \<^verbatim>\<open>AttributeError\<close> on \<^verbatim>\<open>None\<close>.
\<close>

fun process_loop :: "exp_data list \<Rightarrow> models_data \<Rightarrow> error + models_data" where
  "process_loop [] models_data = Inr models_data"
| "process_loop (exp # rest) models_data =
     (case credated exp of
        None \<Rightarrow> Inl AttributeError
      | Some cd \<Rightarrow>
          let model_name = model exp;
              creation_date = replace_midnight cd;
              key = (creation_date, model_name);
              md1 = (if key \<notin> fst ` set models_data
                     then models_data @
                          [(key, \<lparr>g_model = model_name, g_time = creation_date,
                                  g_count = 0, g_experiments = []\<rparr>)]
                     else models_data);
              md2 = AList.map_entry key
                      (\<lambda>g. g\<lparr>g_experiments := g_experiments g @
                             [\<lparr>x_id = exp_id exp, x_name = name exp,
                               x_created_time = cd\<rparr>]\<rparr>) md1;
              md3 = AList.map_entry key (\<lambda>g. g\<lparr>g_count := g_count g + 1\<rparr>) md2
          in process_loop rest md3)"

definition process_experiments :: "exp_data list \<Rightarrow> error + models_data" where
  "process_experiments experiments = process_loop experiments []"

section \<open>The analytics store\<close>

text \<open>
  \<^verbatim>\<open>INSERT INTO experiments ... ON CONFLICT (id) DO NOTHING\<close>: a row whose id is
  present is skipped; \<^verbatim>\<open>name\<close> is declared unique and is not the conflict
  target, so a new id with a present name violates the constraint.
\<close>

fun insert_experiments ::
  "experiment_row list \<Rightarrow> experiment_row list \<Rightarrow> error + experiment_row list" where
  "insert_experiments [] tbl = Inr tbl"
| "insert_experiments (v # vs) tbl =
     (if e_id v \<in> e_id ` set tbl then insert_experiments vs tbl
      else if e_name v \<in> e_name ` set tbl then Inl IntegrityError
      else insert_experiments vs (tbl @ [v]))"

text \<open>\<^verbatim>\<open>INSERT INTO metric_models_popularity ... ON CONFLICT (time, model) DO NOTHING\<close>\<close>

definition popularity_key :: "popularity_row \<Rightarrow> datetime \<times> string" where
  "popularity_key r = (p_time r, p_model r)"

fun insert_popularity :: "popularity_row list \<Rightarrow> popularity_row list \<Rightarrow> popularity_row list" where
  "insert_popularity [] tbl = tbl"
| "insert_popularity (v # vs) tbl =
     (if popularity_key v \<in> popularity_key ` set tbl then insert_popularity vs tbl
      else insert_popularity vs (tbl @ [v]))"

text \<open>
  The materialized view: per model the sum of \<^verbatim>\<open>count\<close> and the greatest
  \<^verbatim>\<open>extracted_time\<close> (the columns \<^verbatim>\<open>PopularModelMaterializedViewTimeDB\<close> maps).
\<close>

definition view_of :: "popularity_row list \<Rightarrow> view_row list" where
  "view_of P =
     List.map_filter
       (\<lambda>m. case filter (\<lambda>r. p_model r = m) P of
               [] \<Rightarrow> None
             | r # rs \<Rightarrow>
                 Some \<lparr>v_model = m, v_count = sum_list (map p_count (r # rs)),
                       v_last_updated = fold max (map p_extracted_time rs) (p_extracted_time r)\<rparr>)
       (remdups (map p_model P))"

text \<open>
  \<^verbatim>\<open>refresh_materialized_views\<close>, in a session of its own: rebuilds the view
  from the committed table (creating it first when it is missing), or raises
  and leaves the store as it is. \<open>fails\<close> says which.
\<close>

definition refresh_materialized_views :: "bool \<Rightarrow> db \<Rightarrow> error option \<times> db" where
  "refresh_materialized_views fails d =
     (if fails then (Some DatabaseException, d)
      else (None, d\<lparr>db_view := view_of (db_popularity d)\<rparr>))"

definition refresh_event :: "error option \<Rightarrow> event" where
  "refresh_event r = (case r of None \<Rightarrow> RefreshOk | Some _ \<Rightarrow> RefreshFailed)"


section \<open>Reconciliation and persistence\<close>

text \<open>
  \<^verbatim>\<open>for i in range(0, len(xs), batch_size): batch = xs[i : i + batch_size]\<close>
  (\<^verbatim>\<open>batch_size\<close> is the constant 100; \<^verbatim>\<open>range\<close> with step 0 would raise).
\<close>

definition batch_size :: nat where
  "batch_size = 100"

fun batches :: "nat \<Rightarrow> 'a list \<Rightarrow> 'a list list" where
  "batches n [] = []"
| "batches n (x # xs) =
     (if n = 0 then [] else take n (x # xs) # batches n (drop n (x # xs)))"

text \<open>
  The query for the latest record of a model and its \<^verbatim>\<open>.first()\<close>; the
  fallback query summing \<^verbatim>\<open>count\<close> grouped by model.
\<close>

definition latest_record :: "env \<Rightarrow> popularity_row list \<Rightarrow> string \<Rightarrow> popularity_row option" where
  "latest_record ev P model_name =
     (case order_by_desc ev (filter (\<lambda>r. p_model r = model_name) P) of
        [] \<Rightarrow> None
      | r # _ \<Rightarrow> Some r)"

definition historical_sum :: "popularity_row list \<Rightarrow> string \<Rightarrow> (string \<times> int) option" where
  "historical_sum P model_name =
     (case filter (\<lambda>r. p_model r = model_name) P of
        [] \<Rightarrow> None
      | rows \<Rightarrow> Some (model_name, sum_list (map p_count rows)))"

definition initial_historical_count :: "env \<Rightarrow> popularity_row list \<Rightarrow> string \<Rightarrow> int" where
  "initial_historical_count ev P model_name =
     (case latest_record ev P model_name of
        Some latest \<Rightarrow> p_total_count latest
      | None \<Rightarrow>
          (case historical_sum P model_name of
             Some result \<Rightarrow> snd result
           | None \<Rightarrow> 0))"

text \<open>
  The local variables of \<^verbatim>\<open>_update_timescaledb\<close> and the uncommitted content of
  the session: the \<^verbatim>\<open>experiments\<close> table as the transaction sees it and the
  number of \<^verbatim>\<open>INSERT\<close> statements executed so far.
\<close>

record sync_state =
  existing_experiment_ids :: "py_value set"
  models_historical_count :: "string \<rightharpoonup> int"
  new_model_popularity_entries :: "popularity_row list"
  session_experiments :: "experiment_row list"
  statements :: nat

text \<open>
  An element of the list \<^verbatim>\<open>values\<close> built for a batch as the table receives
  it (the \<^verbatim>\<open>int\<close> id as text), and the inner loop inserting the new experiments
  of one group in batches; \<^verbatim>\<open>existing_experiment_ids.add(exp_data["id"])\<close> adds
  the \<^verbatim>\<open>int\<close>.
\<close>

definition entry_row :: "string \<Rightarrow> exp_entry \<Rightarrow> experiment_row" where
  "entry_row model_name exp_data =
     \<lparr>e_id = str_of_int (x_id exp_data), e_name = x_name exp_data, e_model = model_name,
      e_created_time = x_created_time exp_data\<rparr>"

fun insert_experiment_batches ::
  "env \<Rightarrow> string \<Rightarrow> exp_entry list list \<Rightarrow> sync_state \<Rightarrow> error + sync_state" where
  "insert_experiment_batches ev model_name [] st = Inr st"
| "insert_experiment_batches ev model_name (batch # rest) st =
     (if write_fault ev = Some (statements st) then Inl OperationalError
      else
        case insert_experiments (map (entry_row model_name) batch)
               (session_experiments st) of
          Inl e \<Rightarrow> Inl e
        | Inr tbl \<Rightarrow>
            insert_experiment_batches ev model_name rest
              (st\<lparr>session_experiments := tbl,
                  statements := statements st + 1,
                  existing_experiment_ids :=
                    existing_experiment_ids st \<union> PyInt ` x_id ` set batch\<rparr>))"

text \<open>
  One iteration of \<^verbatim>\<open>for (date_key, model_name), model_info in models_data.items()\<close>.
  \<open>P\<close> is the popularity table the session reads (nothing is written to it
  before the loop ends), \<open>existing_popularity_entries\<close> the key set read at the start.
\<close>

definition process_group ::
  "env \<Rightarrow> popularity_row list \<Rightarrow> (datetime \<times> string) set \<Rightarrow> datetime \<Rightarrow>
   (datetime \<times> string) \<times> model_info \<Rightarrow> sync_state \<Rightarrow> error + sync_state" where
  "process_group ev P existing_popularity_entries cur item st =
     (case item of ((date_key, model_name), info) \<Rightarrow>
        let new_experiments =
              filter (\<lambda>exp. PyInt (x_id exp) \<notin> existing_experiment_ids st)
                (g_experiments info);
            new_exp_count = int (length new_experiments)
        in if new_exp_count = 0 then Inr st
           else
             let historical =
                   (case models_historical_count st model_name of
                      Some c \<Rightarrow> c
                    | None \<Rightarrow> initial_historical_count ev P model_name);
                 total_count = historical + new_exp_count;
                 st1 = st\<lparr>models_historical_count :=
                            (models_historical_count st)(model_name \<mapsto> total_count)\<rparr>;
                 st2 = (if (date_key, model_name) \<notin> existing_popularity_entries
                        then st1\<lparr>new_model_popularity_entries :=
                                   new_model_popularity_entries st1 @
                                   [\<lparr>p_time = date_key, p_model = model_name,
                                     p_count = new_exp_count, p_total_count = total_count,
                                     p_extracted_time = cur\<rparr>]\<rparr>
                        else st1)
             in insert_experiment_batches ev model_name
                  (batches batch_size new_experiments) st2)"

fun groups_loop ::
  "env \<Rightarrow> popularity_row list \<Rightarrow> (datetime \<times> string) set \<Rightarrow> datetime \<Rightarrow>
   models_data \<Rightarrow> sync_state \<Rightarrow> error + sync_state" where
  "groups_loop ev P keys cur [] st = Inr st"
| "groups_loop ev P keys cur (item # rest) st =
     (case process_group ev P keys cur item st of
        Inl e \<Rightarrow> Inl e
      | Inr st' \<Rightarrow> groups_loop ev P keys cur rest st')"

text \<open>The loop inserting the new popularity entries in batches.\<close>

fun insert_popularity_batches ::
  "env \<Rightarrow> popularity_row list list \<Rightarrow> popularity_row list \<times> nat \<Rightarrow>
   error + popularity_row list \<times> nat" where
  "insert_popularity_batches ev [] (tbl, n) = Inr (tbl, n)"
| "insert_popularity_batches ev (batch # rest) (tbl, n) =
     (if write_fault ev = Some n then Inl OperationalError
      else insert_popularity_batches ev rest (insert_popularity batch tbl, n + 1))"

text \<open>
  \<^verbatim>\<open>_update_timescaledb\<close>; \<open>initial_state\<close> holds the values of its local
  variables before the loop, \<^verbatim>\<open>existing_experiment_ids\<close> being the set of the
  \<^verbatim>\<open>str\<close> values of the column \<^verbatim>\<open>id\<close>. All statements run in one session; an exception
  leaves through \<^verbatim>\<open>get_db_session\<close>, which rolls the session back and re-raises.
  The result is the exception raised (if any), the committed store afterwards and
  the transaction and refresh events in order.
\<close>

definition initial_state :: "db \<Rightarrow> sync_state" where
  "initial_state d =
     \<lparr>existing_experiment_ids = PyStr ` e_id ` set (db_experiments d),
      models_historical_count = Map.empty,
      new_model_popularity_entries = [],
      session_experiments = db_experiments d,
      statements = 0\<rparr>"

definition update_timescaledb ::
  "env \<Rightarrow> models_data \<Rightarrow> datetime \<Rightarrow> db \<Rightarrow> error option \<times> db \<times> event list" where
  "update_timescaledb ev models_data cur d =
     (let st0 = initial_state d;
          existing_popularity_entries = popularity_key ` set (db_popularity d)
      in case groups_loop ev (db_popularity d) existing_popularity_entries cur models_data st0 of
           Inl e \<Rightarrow> (Some e, d, [Rollback])
         | Inr st \<Rightarrow>
             (case insert_popularity_batches ev
                     (batches batch_size (new_model_popularity_entries st))
                     (db_popularity d, statements st) of
                Inl e \<Rightarrow> (Some e, d, [Rollback])
              | Inr (pop, n) \<Rightarrow>
                  if commit_fault ev then (Some OperationalError, d, [Rollback])
                  else
                    let d1 = d\<lparr>db_experiments := session_experiments st,
                               db_popularity := pop\<rparr>;
                        (view_err, d2) = refresh_materialized_views (refresh_fault_inner ev) d1
                    in (None, d2, [Commit, refresh_event view_err])))"

section \<open>One cycle, and the cycles of one worker\<close>

text \<open>
  \<^verbatim>\<open>execute_task\<close>. The exception of \<^verbatim>\<open>_update_timescaledb\<close> is caught and logged,
  the refresh that follows is outside that handler.
\<close>

definition execute_task ::
  "worker \<Rightarrow> env \<Rightarrow> exp_data list \<Rightarrow> db \<Rightarrow> error option \<times> db \<times> event list" where
  "execute_task w ev source d =
     (let cur = current_time w
      in case extract_autosubmit_experiments w ev source of
           Inl e \<Rightarrow> (Some e, d, [])
         | Inr experiments \<Rightarrow>
             if experiments = [] then (None, d, [])
             else
               (case process_experiments experiments of
                  Inl e \<Rightarrow> (Some e, d, [])
                | Inr models_data \<Rightarrow>
                    let (db_err, d1, tr) = update_timescaledb ev models_data cur d;
                        (err, d2) = refresh_materialized_views (refresh_fault_outer ev) d1
                    in (err, d2, tr @ [refresh_event err])))"

text \<open>
  Successive cycles of one worker instance: each with the state of the world
  during the cycle and the content of the source at that time.
\<close>

fun run_cycles :: "worker \<Rightarrow> (env \<times> exp_data list) list \<Rightarrow> db \<Rightarrow> db" where
  "run_cycles w [] d = d"
| "run_cycles w ((ev, source) # rest) d =
     run_cycles w rest (fst (snd (execute_task w ev source d)))"

text \<open>
  A result order of \<^verbatim>\<open>ORDER BY extracted_time DESC\<close>: a stable sort, rows with
  equal \<^verbatim>\<open>extracted_time\<close> stay in stored order.
\<close>

definition stable_desc :: "popularity_row list \<Rightarrow> popularity_row list" where
  "stable_desc rows = rev (sort_key p_extracted_time (rev rows))"

definition no_faults :: env where
  "no_faults = \<lparr>source_fault = False, write_fault = None, commit_fault = False,
                refresh_fault_inner = False, refresh_fault_outer = False,
                order_by_desc = stable_desc\<rparr>"

definition empty_db :: db where
  "empty_db = \<lparr>db_experiments = [], db_popularity = [], db_view = []\<rparr>"

section \<open>Measures and inputs used by the properties\<close>

text \<open>
  The sum of \<^verbatim>\<open>count\<close> over the persisted buckets of a model (the value the
  fallback query of \<^verbatim>\<open>_update_timescaledb\<close> selects).
\<close>

definition sum_count :: "popularity_row list \<Rightarrow> string \<Rightarrow> int" where
  "sum_count P model_name =
     sum_list (map p_count (filter (\<lambda>r. p_model r = model_name) P))"

text \<open>The buckets of a model that a cycle added to the table \<open>P\<close>, giving \<open>P'\<close>.\<close>

definition written_for :: "popularity_row list \<Rightarrow> popularity_row list \<Rightarrow> string \<Rightarrow> popularity_row list" where
  "written_for P P' model_name =
     filter (\<lambda>r. p_model r = model_name) (drop (length P) P')"

text \<open>
  The number of \<^verbatim>\<open>INSERT\<close> statements that \<^verbatim>\<open>_update_timescaledb\<close> executes
  before it commits; \<^verbatim>\<open>None\<close> when one of them raises.
\<close>

definition statements_issued :: "env \<Rightarrow> models_data \<Rightarrow> datetime \<Rightarrow> db \<Rightarrow> nat option" where
  "statements_issued ev models_data cur d =
     (case groups_loop ev (db_popularity d) (popularity_key ` set (db_popularity d)) cur
             models_data (initial_state d) of
        Inl e \<Rightarrow> None
      | Inr st \<Rightarrow>
          (case insert_popularity_batches ev
                  (batches batch_size (new_model_popularity_entries st))
                  (db_popularity d, statements st) of
             Inl e \<Rightarrow> None
           | Inr (pop, n) \<Rightarrow> Some n))"

text \<open>The ids of the members of all groups, in the order of the loop.\<close>

definition member_ids :: "models_data \<Rightarrow> int list" where
  "member_ids models_data =
     concat (map (\<lambda>item. map x_id (g_experiments (snd item))) models_data)"

text \<open>
  A source row with the fields the scenarios do not mention filled in as in the
  fixture of \<^verbatim>\<open>tests/workers/test_autosubmit_sync_worker.py\<close>.
\<close>

definition source_row :: "int \<Rightarrow> string \<Rightarrow> string \<Rightarrow> datetime \<Rightarrow> exp_data" where
  "source_row i n m t =
     \<lparr>exp_id = i, user = ''user'', model = m, branch = ''main'', hpc = ''marenostrum'',
      credated = Some t, name = n\<rparr>"

definition quoted :: "string \<Rightarrow> string" where
  "quoted s = CHR 0x27 # s @ [CHR 0x27]"

text \<open>The sources of scenarios A and B of the specification.\<close>

definition scenario_a :: "exp_data list" where
  "scenario_a =
     [source_row 1 ''a000'' ''EC-Earth/'' (datetime 2023 1 1),
      source_row 2 ''a001'' (quoted ''EC-Earth'') (datetime 2023 1 1)]"

definition scenario_b :: "exp_data list" where
  "scenario_b = scenario_a @ [source_row 3 ''a002'' ''EC-Earth'' (datetime 2023 1 2)]"

definition bucket_a :: "datetime \<Rightarrow> popularity_row" where
  "bucket_a extracted =
     \<lparr>p_time = datetime 2023 1 1, p_model = ''EC-Earth'', p_count = 2, p_total_count = 2,
      p_extracted_time = extracted\<rparr>"

definition bucket_b :: "datetime \<Rightarrow> int \<Rightarrow> popularity_row" where
  "bucket_b extracted tot =
     \<lparr>p_time = datetime 2023 1 2, p_model = ''EC-Earth'', p_count = 1, p_total_count = tot,
      p_extracted_time = extracted\<rparr>"

text \<open>A source that holds only the experiment scenario B adds.\<close>

definition scenario_b_added :: "exp_data list" where
  "scenario_b_added = [source_row 3 ''a002'' ''EC-Earth'' (datetime 2023 1 2)]"

text \<open>The groups \<^verbatim>\<open>_process_experiments\<close> builds from scenario A.\<close>

definition scenario_a_groups :: models_data where
  "scenario_a_groups =
     [((datetime 2023 1 1, ''EC-Earth''),
       \<lparr>g_model = ''EC-Earth'', g_time = datetime 2023 1 1, g_count = 2,
        g_experiments =
          [\<lparr>x_id = 1, x_name = ''a000'', x_created_time = datetime 2023 1 1\<rparr>,
           \<lparr>x_id = 2, x_name = ''a001'', x_created_time = datetime 2023 1 1\<rparr>]\<rparr>)]"

text \<open>Two worker instances, constructed on 5 and on 6 January 2023.\<close>

definition worker_5 :: worker where
  "worker_5 = init_worker 3600 (datetime 2023 1 5) None"

definition worker_6 :: worker where
  "worker_6 = init_worker 3600 (datetime 2023 1 6) None"

text \<open>The store after a first cycle over scenario A, by the worker of 5 January.\<close>

definition store_a :: db where
  "store_a = fst (snd (execute_task worker_5 no_faults scenario_a empty_db))"

text \<open>
  Names for parts of one iteration of the loop over the groups: the new
  experiments of a group, the cumulative count known for a model before the
  iteration, and the popularity entry the iteration appends.
\<close>

definition new_of :: "sync_state \<Rightarrow> model_info \<Rightarrow> exp_entry list" where
  "new_of st info =
     filter (\<lambda>exp. PyInt (x_id exp) \<notin> existing_experiment_ids st) (g_experiments info)"

definition prior_of :: "env \<Rightarrow> popularity_row list \<Rightarrow> sync_state \<Rightarrow> string \<Rightarrow> int" where
  "prior_of ev P st m =
     (case models_historical_count st m of
        Some c \<Rightarrow> c
      | None \<Rightarrow> initial_historical_count ev P m)"

definition entry_of :: "datetime \<Rightarrow> datetime \<Rightarrow> string \<Rightarrow> int \<Rightarrow> int \<Rightarrow> popularity_row" where
  "entry_of cur dk m n tot =
     \<lparr>p_time = dk, p_model = m, p_count = n, p_total_count = tot, p_extracted_time = cur\<rparr>"

text \<open>
  Scenario C: a source with the denylisted value \<open>NA\<close> and with a value that
  only becomes \<open>NA\<close> when it is cleaned.
\<close>

definition scenario_c :: "exp_data list" where
  "scenario_c =
     [source_row 1 ''a000'' ''NA/'' (datetime 2023 1 1),
      source_row 2 ''a001'' ''NA'' (datetime 2023 1 1)]"

text \<open>
  Two experiments of different days with one name: the second insertion
  violates the unique constraint on \<open>name\<close> after the first has been executed.
\<close>

definition conflicting_names :: "exp_data list" where
  "conflicting_names =
     [source_row 1 ''a000'' ''EC-Earth'' (datetime 2023 1 1),
      source_row 2 ''a000'' ''EC-Earth'' (datetime 2023 1 2)]"

text \<open>
  A source of four experiments, the first with the placeholder \<open>NA\<close> as its
  model, and the same source after that experiment has been given its model.
\<close>

definition history_before :: "exp_data list" where
  "history_before =
     [source_row 1 ''a000'' ''NA'' (datetime 2022 12 31),
      source_row 2 ''a001'' ''EC-Earth'' (datetime 2023 1 1),
      source_row 3 ''a002'' ''EC-Earth'' (datetime 2023 1 2),
      source_row 4 ''a003'' ''EC-Earth'' (datetime 2023 1 3)]"

definition history_after :: "exp_data list" where
  "history_after =
     [source_row 1 ''a000'' ''EC-Earth'' (datetime 2022 12 31),
      source_row 2 ''a001'' ''EC-Earth'' (datetime 2023 1 1),
      source_row 3 ''a002'' ''EC-Earth'' (datetime 2023 1 2),
      source_row 4 ''a003'' ''EC-Earth'' (datetime 2023 1 3)]"

section \<open>The worker loop and the manager\<close>

text \<open>
  \<^verbatim>\<open>BaseWorker.start\<close> is a coroutine; between two suspensions it runs without
  interleaving. Its task is modelled by the place where it is suspended: not yet
  started, inside \<^verbatim>\<open>await self.execute_task()\<close>, inside
  \<^verbatim>\<open>await asyncio.sleep(self.interval_seconds)\<close> (with the duration asked for),
  or finished.
\<close>

datatype pc = NotStarted | InCycle | Sleeping nat | Finished

datatype log_entry = LogStarting | LogExecuting | LogCompleted | LogError error | LogStopping

record task =
  t_worker :: worker
  t_pc :: pc
  t_log :: "log_entry list"

text \<open>
  \<^verbatim>\<open>while self.is_running:\<close> up to the call of \<^verbatim>\<open>execute_task\<close>, or the end of
  the loop and of the task.
\<close>

definition loop_test :: "task \<Rightarrow> task" where
  "loop_test t =
     (if is_running (t_worker t)
      then t\<lparr>t_pc := InCycle, t_log := t_log t @ [LogExecuting]\<rparr>
      else t\<lparr>t_pc := Finished\<rparr>)"

text \<open>The first run of \<^verbatim>\<open>start\<close>: the flag is set, then the loop is entered.\<close>

definition start_task :: "task \<Rightarrow> task" where
  "start_task t =
     loop_test (t\<lparr>t_worker := (t_worker t)\<lparr>is_running := True\<rparr>,
                  t_log := t_log t @ [LogStarting]\<rparr>)"

text \<open>
  The end of \<^verbatim>\<open>execute_task\<close> inside \<^verbatim>\<open>try ... except Exception\<close>: \<open>r\<close> is the
  exception it raised, if any; both branches log and fall through to the sleep.
\<close>

definition cycle_ends :: "error option \<Rightarrow> task \<Rightarrow> task" where
  "cycle_ends r t =
     t\<lparr>t_log := t_log t @ [case r of None \<Rightarrow> LogCompleted | Some e \<Rightarrow> LogError e],
       t_pc := Sleeping (interval_seconds (t_worker t))\<rparr>"
















section \<open>Evaluation of concrete cycles\<close>

lemma str_of_int_digits:
  "str_of_int 1 = ''1''" "str_of_int 2 = ''2''" "str_of_int 3 = ''3''" "str_of_int 4 = ''4''"
  by (simp_all add: str_of_int_def decimal.simps)

lemmas cycle_defs =
  execute_task_def extract_autosubmit_experiments_def process_experiments_def
  update_timescaledb_def process_group_def refresh_materialized_views_def refresh_event_def
  initial_historical_count_def latest_record_def historical_sum_def popularity_key_def
  view_of_def clean_model_name_def rstrip_slash_def startswith_quote_def endswith_quote_def
  replace_midnight_def datetime_def init_worker_def no_faults_def empty_db_def stable_desc_def
  batch_size_def source_row_def quoted_def entry_row_def initial_state_def Let_def
  List.map_filter_def str_of_int_digits

section \<open>Normalisation\<close>

lemma rstrip_slash_fixed: "rstrip_slash s = s \<longleftrightarrow> (s = [] \<or> last s \<noteq> CHR ''/'')"
proof (cases s rule: rev_cases)
  case Nil
  then show ?thesis by (simp add: rstrip_slash_def)
next
  case (snoc ys y)
  show ?thesis
  proof (cases "y = CHR ''/''")
    case True
    have "length (rstrip_slash s) \<le> length ys"
      using snoc True by (simp add: rstrip_slash_def le_trans[OF length_dropWhile_le])
    then have "rstrip_slash s \<noteq> s" using snoc by auto
    then show ?thesis using snoc True by simp
  next
    case False
    then show ?thesis using snoc by (simp add: rstrip_slash_def)
  qed
qed

lemma clean_model_name_fixed:
  "clean_model_name s = s \<longleftrightarrow>
     (s = [] \<or> (last s \<noteq> CHR ''/'' \<and> \<not> (startswith_quote s \<and> endswith_quote s)))"
proof (cases "s = []")
  case True
  then show ?thesis by (simp add: clean_model_name_def)
next
  case ne: False
  show ?thesis
  proof (cases "last s = CHR ''/''")
    case True
    have "length (rstrip_slash s) < length s"
    proof -
      obtain ys where s: "s = ys @ [CHR ''/'']"
        using ne True by (metis append_butlast_last_id)
      have "length (rstrip_slash s) \<le> length ys"
        unfolding s by (simp add: rstrip_slash_def le_trans[OF length_dropWhile_le])
      then show ?thesis using s by simp
    qed
    then have "length (clean_model_name s) < length s"
      using ne by (auto simp: clean_model_name_def Let_def)
    then show ?thesis using True ne by auto
  next
    case False
    then have st: "rstrip_slash s = s" using rstrip_slash_fixed by blast
    show ?thesis
    proof (cases "startswith_quote s \<and> endswith_quote s")
      case True
      have "length (butlast (tl s)) < length s" using ne by (cases s) auto
      then have "butlast (tl s) \<noteq> s" by (metis less_irrefl)
      then have "clean_model_name s \<noteq> s"
        using ne st True by (simp add: clean_model_name_def Let_def)
      then show ?thesis using True ne by simp
    next
      case False
      then show ?thesis
        using ne st \<open>last s \<noteq> CHR ''/''\<close> by (auto simp: clean_model_name_def Let_def)
    qed
  qed
qed

text \<open>
  C5 (as stated): normalisation is idempotent on every string. It is not: one
  application removes one layer of quotes, so a doubly quoted name loses a layer
  at each application.
\<close>

theorem clean_model_name_not_idempotent:
  "clean_model_name (clean_model_name (quoted (quoted ''a''))) \<noteq>
   clean_model_name (quoted (quoted ''a''))"
  by (simp add: clean_model_name_def rstrip_slash_def startswith_quote_def
      endswith_quote_def quoted_def)

text \<open>
  C5 (amended): normalising a second time changes nothing exactly when the first
  result is empty, or neither ends with a slash nor both starts and ends with a
  single quote.
\<close>

theorem clean_model_name_idempotent_iff:
  "clean_model_name (clean_model_name x) = clean_model_name x \<longleftrightarrow>
     (clean_model_name x = [] \<or>
      (last (clean_model_name x) \<noteq> CHR ''/'' \<and>
       \<not> (startswith_quote (clean_model_name x) \<and> endswith_quote (clean_model_name x))))"
  by (rule clean_model_name_fixed)

theorem clean_model_name_idempotent_iff_witness:
  "clean_model_name (clean_model_name (quoted ''CMCC-ESM2'')) =
   clean_model_name (quoted ''CMCC-ESM2'')"
proof -
  have c: "clean_model_name (quoted ''CMCC-ESM2'') = ''CMCC-ESM2''"
    by (simp add: clean_model_name_def rstrip_slash_def startswith_quote_def
        endswith_quote_def quoted_def)
  have "last ''CMCC-ESM2'' \<noteq> CHR ''/'' \<and> \<not> startswith_quote ''CMCC-ESM2''"
    by (simp add: startswith_quote_def)
  then show ?thesis
    using clean_model_name_idempotent_iff [of "quoted ''CMCC-ESM2''"] c by simp
qed

section \<open>Scenarios A and B\<close>

lemma scenario_a_extract:
  "extract_autosubmit_experiments (init_worker n1 t1 None) no_faults scenario_a =
     Inr [source_row 1 ''a000'' ''EC-Earth'' (datetime 2023 1 1),
          source_row 2 ''a001'' ''EC-Earth'' (datetime 2023 1 1)]"
  by (simp add: cycle_defs scenario_a_def)

lemma scenario_a_buckets:
  "db_popularity (fst (snd (execute_task (init_worker n1 t1 None) no_faults scenario_a empty_db))) =
     [bucket_a t1]"
  by (simp add: cycle_defs scenario_a_def bucket_a_def)

lemma scenario_b_buckets:
  "db_popularity (fst (snd (execute_task (init_worker n2 t2 None) no_faults scenario_b
      (fst (snd (execute_task (init_worker n1 t1 None) no_faults scenario_a empty_db))))))
   = [bucket_a t1, bucket_b t2 5]"
  by (simp add: cycle_defs scenario_a_def scenario_b_def bucket_a_def bucket_b_def)

section \<open>The loops of the persister\<close>

lemma concat_batches: "0 < n \<Longrightarrow> concat (batches n xs) = xs"
proof (induction n xs rule: batches.induct)
  case (1 n)
  then show ?case by simp
next
  case (2 n x xs)
  then have "concat (batches n (drop n (x # xs))) = drop n (x # xs)" by simp
  then have "concat (batches n (x # xs)) = take n (x # xs) @ drop n (x # xs)"
    using 2 by simp
  then show ?case by (simp only: append_take_drop_id)
qed

lemma insert_experiments_ids:
  "insert_experiments vs tbl = Inr tbl' \<Longrightarrow> e_id ` set tbl' = e_id ` set tbl \<union> e_id ` set vs"
  by (induction vs arbitrary: tbl) (auto split: if_splits)

lemma insert_experiments_app:
  "insert_experiments vs tbl = Inr tbl' \<Longrightarrow> \<exists>new. tbl' = tbl @ new \<and> set new \<subseteq> set vs"
proof (induction vs arbitrary: tbl)
  case Nil
  then show ?case by simp
next
  case (Cons v vs)
  show ?case
  proof (cases "e_id v \<in> e_id ` set tbl")
    case True
    then have "insert_experiments vs tbl = Inr tbl'" using Cons.prems by simp
    from Cons.IH[OF this] show ?thesis by auto
  next
    case False
    then have r: "insert_experiments vs (tbl @ [v]) = Inr tbl'"
      using Cons.prems by (auto split: if_splits)
    from Cons.IH[OF r] obtain new where "tbl' = (tbl @ [v]) @ new" "set new \<subseteq> set vs" by blast
    then have "tbl' = tbl @ (v # new) \<and> set (v # new) \<subseteq> set (v # vs)" by auto
    then show ?thesis by blast
  qed
qed

lemma ieb_fields:
  "insert_experiment_batches ev m bs st = Inr st' \<Longrightarrow>
     existing_experiment_ids st' =
       existing_experiment_ids st \<union> PyInt ` x_id ` set (concat bs) \<and>
     e_id ` set (session_experiments st') =
       e_id ` set (session_experiments st) \<union> (\<lambda>en. str_of_int (x_id en)) ` set (concat bs) \<and>
     models_historical_count st' = models_historical_count st \<and>
     new_model_popularity_entries st' = new_model_popularity_entries st \<and>
     statements st' = statements st + length bs"
proof (induction bs arbitrary: st)
  case Nil
  then show ?case by simp
next
  case (Cons b bs)
  from Cons.prems obtain tbl where
    t: "insert_experiments (map (entry_row m) b) (session_experiments st) = Inr tbl"
    and r: "insert_experiment_batches ev m bs
              (st\<lparr>session_experiments := tbl, statements := statements st + 1,
                  existing_experiment_ids :=
                    existing_experiment_ids st \<union> PyInt ` x_id ` set b\<rparr>) = Inr st'"
    by (auto split: if_splits sum.splits)
  have ids: "e_id ` set tbl =
      e_id ` set (session_experiments st) \<union> (\<lambda>en. str_of_int (x_id en)) ` set b"
    using insert_experiments_ids[OF t] by (simp add: entry_row_def image_image)
  from Cons.IH[OF r] ids show ?case by (simp add: image_Un Un_assoc)
qed

lemma ieb_rows:
  "insert_experiment_batches ev m bs st = Inr st' \<Longrightarrow>
     \<exists>rows. session_experiments st' = session_experiments st @ rows \<and>
            set rows \<subseteq> entry_row m ` set (concat bs)"
proof (induction bs arbitrary: st)
  case Nil
  then show ?case by simp
next
  case (Cons b bs)
  from Cons.prems obtain tbl where
    t: "insert_experiments (map (entry_row m) b) (session_experiments st) = Inr tbl"
    and r: "insert_experiment_batches ev m bs
              (st\<lparr>session_experiments := tbl, statements := statements st + 1,
                  existing_experiment_ids :=
                    existing_experiment_ids st \<union> PyInt ` x_id ` set b\<rparr>) = Inr st'"
    by (auto split: if_splits sum.splits)
  from insert_experiments_app[OF t] obtain n1 where
    n1: "tbl = session_experiments st @ n1" "set n1 \<subseteq> entry_row m ` set b" by auto
  from Cons.IH[OF r] obtain n2 where
    n2: "session_experiments st' = tbl @ n2" "set n2 \<subseteq> entry_row m ` set (concat bs)" by auto
  have "session_experiments st' = session_experiments st @ (n1 @ n2)" using n1 n2 by simp
  moreover have "set (n1 @ n2) \<subseteq> entry_row m ` set (concat (b # bs))"
    using n1(2) n2(2) by (simp add: image_Un) blast
  ultimately show ?case by blast
qed

lemma process_group_skip:
  "new_of st info = [] \<Longrightarrow> process_group ev P keys cur ((dk, m), info) st = Inr st"
  by (simp add: process_group_def new_of_def)

lemma process_group_new:
  assumes "process_group ev P keys cur ((dk, m), info) st = Inr st'"
    and "new_of st info \<noteq> []"
  shows "insert_experiment_batches ev m (batches batch_size (new_of st info))
           (st\<lparr>models_historical_count :=
                  (models_historical_count st)
                    (m \<mapsto> prior_of ev P st m + int (length (new_of st info))),
               new_model_popularity_entries :=
                  new_model_popularity_entries st @
                  (if (dk, m) \<notin> keys
                   then [entry_of cur dk m (int (length (new_of st info)))
                           (prior_of ev P st m + int (length (new_of st info)))]
                   else [])\<rparr>) = Inr st'"
  using assms
  by (cases "(dk, m) \<in> keys")
     (simp_all add: process_group_def new_of_def prior_of_def entry_of_def Let_def)

lemma process_group_fields:
  assumes "process_group ev P keys cur ((dk, m), info) st = Inr st'"
  shows "existing_experiment_ids st' =
           existing_experiment_ids st \<union> PyInt ` x_id ` set (g_experiments info)"
    and "e_id ` set (session_experiments st') =
           e_id ` set (session_experiments st) \<union>
           (\<lambda>en. str_of_int (x_id en)) ` set (new_of st info)"
    and "new_of st info = [] \<Longrightarrow> st' = st"
    and "new_of st info \<noteq> [] \<Longrightarrow>
           models_historical_count st' =
             (models_historical_count st)
               (m \<mapsto> prior_of ev P st m + int (length (new_of st info))) \<and>
           new_model_popularity_entries st' =
             new_model_popularity_entries st @
             (if (dk, m) \<notin> keys
              then [entry_of cur dk m (int (length (new_of st info)))
                      (prior_of ev P st m + int (length (new_of st info)))]
              else [])"
    and "\<exists>rows. session_experiments st' = session_experiments st @ rows \<and>
           set rows \<subseteq> entry_row m ` set (new_of st info)"
proof -
  have bs: "concat (batches batch_size (new_of st info)) = new_of st info"
    by (rule concat_batches) (simp add: batch_size_def)
  have un: "existing_experiment_ids st \<union> PyInt ` x_id ` set (new_of st info) =
            existing_experiment_ids st \<union> PyInt ` x_id ` set (g_experiments info)"
    by (auto simp: new_of_def)
  show "new_of st info = [] \<Longrightarrow> st' = st"
    using assms process_group_skip by simp
  show "new_of st info \<noteq> [] \<Longrightarrow>
           models_historical_count st' =
             (models_historical_count st)
               (m \<mapsto> prior_of ev P st m + int (length (new_of st info))) \<and>
           new_model_popularity_entries st' =
             new_model_popularity_entries st @
             (if (dk, m) \<notin> keys
              then [entry_of cur dk m (int (length (new_of st info)))
                      (prior_of ev P st m + int (length (new_of st info)))]
              else [])"
    using ieb_fields[OF process_group_new[OF assms]] by simp
  show "existing_experiment_ids st' =
           existing_experiment_ids st \<union> PyInt ` x_id ` set (g_experiments info)"
  proof (cases "new_of st info = []")
    case True
    then have "st' = st" using assms process_group_skip by simp
    then show ?thesis using un True by auto
  next
    case False
    then show ?thesis
      using ieb_fields[OF process_group_new[OF assms False]] bs un by simp
  qed
  show "e_id ` set (session_experiments st') =
           e_id ` set (session_experiments st) \<union>
           (\<lambda>en. str_of_int (x_id en)) ` set (new_of st info)"
  proof (cases "new_of st info = []")
    case True
    then have "st' = st" using assms process_group_skip by simp
    then show ?thesis using True by auto
  next
    case False
    then show ?thesis
      using ieb_fields[OF process_group_new[OF assms False]] bs by simp
  qed
  show "\<exists>rows. session_experiments st' = session_experiments st @ rows \<and>
           set rows \<subseteq> entry_row m ` set (new_of st info)"
  proof (cases "new_of st info = []")
    case True
    then have "st' = st" using assms process_group_skip by simp
    then show ?thesis by auto
  next
    case False
    then show ?thesis
      using ieb_rows[OF process_group_new[OF assms False]] bs by simp
  qed
qed

lemma groups_loop_ids:
  "groups_loop ev P keys cur md st = Inr st' \<Longrightarrow>
     existing_experiment_ids st' =
       existing_experiment_ids st \<union>
       (\<Union>item \<in> set md. PyInt ` x_id ` set (g_experiments (snd item))) \<and>
     ((\<forall>i. PyInt i \<in> existing_experiment_ids st \<longrightarrow>
           str_of_int i \<in> e_id ` set (session_experiments st)) \<longrightarrow>
      (\<forall>i. PyInt i \<in> existing_experiment_ids st' \<longrightarrow>
           str_of_int i \<in> e_id ` set (session_experiments st')))"
proof (induction md arbitrary: st)
  case Nil
  then show ?case by simp
next
  case (Cons item md)
  obtain dk m info where item: "item = ((dk, m), info)" by (metis prod.exhaust)
  from Cons.prems obtain st1 where
    g: "process_group ev P keys cur ((dk, m), info) st = Inr st1"
    and r: "groups_loop ev P keys cur md st1 = Inr st'"
    by (auto simp: item split: sum.splits)
  note f = process_group_fields[OF g]
  have inv: "\<forall>i. PyInt i \<in> existing_experiment_ids st1 \<longrightarrow>
               str_of_int i \<in> e_id ` set (session_experiments st1)"
    if h: "\<forall>i. PyInt i \<in> existing_experiment_ids st \<longrightarrow>
               str_of_int i \<in> e_id ` set (session_experiments st)"
  proof (intro allI impI)
    fix i
    assume "PyInt i \<in> existing_experiment_ids st1"
    then consider "PyInt i \<in> existing_experiment_ids st"
      | "PyInt i \<notin> existing_experiment_ids st" "i \<in> x_id ` set (g_experiments info)"
      unfolding f(1) by blast
    then show "str_of_int i \<in> e_id ` set (session_experiments st1)"
    proof cases
      case 1
      then show ?thesis using h unfolding f(2) by blast
    next
      case 2
      then have "i \<in> x_id ` set (new_of st info)" by (auto simp: new_of_def)
      then show ?thesis unfolding f(2) by blast
    qed
  qed
  from Cons.IH[OF r] have
    a: "existing_experiment_ids st' =
          existing_experiment_ids st1 \<union>
          (\<Union>item \<in> set md. PyInt ` x_id ` set (g_experiments (snd item)))"
    and b: "(\<forall>i. PyInt i \<in> existing_experiment_ids st1 \<longrightarrow>
               str_of_int i \<in> e_id ` set (session_experiments st1)) \<longrightarrow>
            (\<forall>i. PyInt i \<in> existing_experiment_ids st' \<longrightarrow>
               str_of_int i \<in> e_id ` set (session_experiments st'))"
    by blast+
  have "existing_experiment_ids st' =
       existing_experiment_ids st \<union>
       (\<Union>item \<in> set (item # md). PyInt ` x_id ` set (g_experiments (snd item)))"
    unfolding a f(1) by (simp add: item Un_assoc)
  then show ?case using inv b by blast
qed

text \<open>
  The test \<^verbatim>\<open>exp["id"] not in existing_experiment_ids\<close> on the ids read from the
  store: they are of type \<^verbatim>\<open>str\<close>, the id tested is an \<^verbatim>\<open>int\<close>.
\<close>

lemma new_of_initial_state: "new_of (initial_state d) info = g_experiments info"
  by (auto simp: new_of_def initial_state_def intro: filter_True)

lemma refresh_tables:
  "db_experiments (snd (refresh_materialized_views f d)) = db_experiments d"
  "db_popularity (snd (refresh_materialized_views f d)) = db_popularity d"
  "fst (refresh_materialized_views f d) = (if f then Some DatabaseException else None)"
  by (simp_all add: refresh_materialized_views_def)

lemma update_timescaledb_cases:
  obtains (rollback) e where "update_timescaledb ev md cur d = (Some e, d, [Rollback])"
  | (commit) st pop n d' where
      "groups_loop ev (db_popularity d) (popularity_key ` set (db_popularity d)) cur md
         (initial_state d) = Inr st"
      "insert_popularity_batches ev (batches batch_size (new_model_popularity_entries st))
         (db_popularity d, statements st) = Inr (pop, n)"
      "\<not> commit_fault ev"
      "update_timescaledb ev md cur d =
         (None, d', [Commit, if refresh_fault_inner ev then RefreshFailed else RefreshOk])"
      "db_experiments d' = session_experiments st"
      "db_popularity d' = pop"
proof (cases "groups_loop ev (db_popularity d) (popularity_key ` set (db_popularity d)) cur md
         (initial_state d)")
  case (Inl e)
  then have "update_timescaledb ev md cur d = (Some e, d, [Rollback])"
    by (simp add: update_timescaledb_def)
  then show ?thesis by (rule rollback)
next
  case (Inr st)
  show ?thesis
  proof (cases "insert_popularity_batches ev (batches batch_size (new_model_popularity_entries st))
         (db_popularity d, statements st)")
    case (Inl e)
    then have "update_timescaledb ev md cur d = (Some e, d, [Rollback])"
      using Inr by (simp add: update_timescaledb_def)
    then show ?thesis by (rule rollback)
  next
    case r: (Inr pn)
    obtain pop n where pn: "pn = (pop, n)" by (cases pn)
    show ?thesis
    proof (cases "commit_fault ev")
      case True
      then have "update_timescaledb ev md cur d = (Some OperationalError, d, [Rollback])"
        using Inr r pn by (simp add: update_timescaledb_def)
      then show ?thesis by (rule rollback)
    next
      case False
      let ?d1 = "d\<lparr>db_experiments := session_experiments st, db_popularity := pop\<rparr>"
      let ?d' = "snd (refresh_materialized_views (refresh_fault_inner ev) ?d1)"
      have "update_timescaledb ev md cur d =
         (None, ?d', [Commit, if refresh_fault_inner ev then RefreshFailed else RefreshOk])"
        using Inr r pn False
        by (simp add: update_timescaledb_def refresh_materialized_views_def refresh_event_def)
      moreover have "db_experiments ?d' = session_experiments st" "db_popularity ?d' = pop"
        by (simp_all add: refresh_tables)
      ultimately show ?thesis using commit[OF Inr _ False] r pn by blast
    qed
  qed
qed

section \<open>Cycles\<close>

lemma execute_task_cases:
  obtains (source_error) "source_fault ev"
      "execute_task w ev source d = (Some OperationalError, d, [])"
  | (no_experiments) "\<not> source_fault ev"
      "extract_autosubmit_experiments w ev source = Inr []"
      "execute_task w ev source d = (None, d, [])"
  | (process_error) exps e where "\<not> source_fault ev"
      "extract_autosubmit_experiments w ev source = Inr exps"
      "process_experiments exps = Inl e"
      "execute_task w ev source d = (Some e, d, [])"
  | (persist) exps md r1 d1 tr1 d2 where "\<not> source_fault ev"
      "extract_autosubmit_experiments w ev source = Inr exps"
      "process_experiments exps = Inr md"
      "update_timescaledb ev md (current_time w) d = (r1, d1, tr1)"
      "execute_task w ev source d =
         (if refresh_fault_outer ev then Some DatabaseException else None, d2,
          tr1 @ [if refresh_fault_outer ev then RefreshFailed else RefreshOk])"
      "db_experiments d2 = db_experiments d1"
      "db_popularity d2 = db_popularity d1"
proof (cases "source_fault ev")
  case True
  then have "execute_task w ev source d = (Some OperationalError, d, [])"
    by (simp add: execute_task_def extract_autosubmit_experiments_def)
  then show ?thesis using True source_error by blast
next
  case nf: False
  then obtain exps where ex: "extract_autosubmit_experiments w ev source = Inr exps"
    by (simp add: extract_autosubmit_experiments_def)
  show ?thesis
  proof (cases "exps = []")
    case True
    then have r: "execute_task w ev source d = (None, d, [])"
      using ex by (simp add: execute_task_def)
    have x: "extract_autosubmit_experiments w ev source = Inr []"
      using ex True by simp
    show ?thesis by (rule no_experiments[OF nf x r])
  next
    case ne: False
    show ?thesis
    proof (cases "process_experiments exps")
      case (Inl e)
      then have "execute_task w ev source d = (Some e, d, [])"
        using ex ne by (simp add: execute_task_def)
      then show ?thesis using process_error nf ex Inl by blast
    next
      case (Inr md)
      obtain r1 d1 tr1 where u: "update_timescaledb ev md (current_time w) d = (r1, d1, tr1)"
        by (metis prod_cases3)
      let ?d2 = "snd (refresh_materialized_views (refresh_fault_outer ev) d1)"
      have "execute_task w ev source d =
         (if refresh_fault_outer ev then Some DatabaseException else None, ?d2,
          tr1 @ [if refresh_fault_outer ev then RefreshFailed else RefreshOk])"
        using ex ne Inr u
        by (simp add: execute_task_def refresh_materialized_views_def refresh_event_def)
      moreover have "db_experiments ?d2 = db_experiments d1" "db_popularity ?d2 = db_popularity d1"
        by (simp_all add: refresh_tables)
      ultimately show ?thesis using persist[OF nf ex Inr u] by blast
    qed
  qed
qed

lemma extract_env:
  "\<not> source_fault ev \<Longrightarrow> \<not> source_fault ev' \<Longrightarrow>
   extract_autosubmit_experiments w ev source = extract_autosubmit_experiments w ev' source"
  by (simp add: extract_autosubmit_experiments_def)

lemma update_timescaledb_covers:
  assumes "update_timescaledb ev md cur d = (r, d', tr)" and "Rollback \<notin> set tr"
  shows "\<forall>item \<in> set md. \<forall>en \<in> set (g_experiments (snd item)).
           str_of_int (x_id en) \<in> e_id ` set (db_experiments d')"
proof (cases rule: update_timescaledb_cases[of ev md cur d])
  case (rollback e)
  then show ?thesis using assms by simp
next
  case (commit st pop n d'')
  have d'': "d'' = d'" using commit(4) assms(1) by simp
  have "\<forall>i. PyInt i \<in> existing_experiment_ids (initial_state d) \<longrightarrow>
          str_of_int i \<in> e_id ` set (session_experiments (initial_state d))"
    by (auto simp: initial_state_def)
  with groups_loop_ids[OF commit(1)] have
    a: "existing_experiment_ids st =
       existing_experiment_ids (initial_state d) \<union>
       (\<Union>item \<in> set md. PyInt ` x_id ` set (g_experiments (snd item)))"
    and b: "\<forall>i. PyInt i \<in> existing_experiment_ids st \<longrightarrow>
          str_of_int i \<in> e_id ` set (session_experiments st)" by blast+
  show ?thesis
  proof (intro ballI)
    fix item en
    assume "item \<in> set md" "en \<in> set (g_experiments (snd item))"
    then have "PyInt (x_id en) \<in> existing_experiment_ids st" unfolding a by blast
    then show "str_of_int (x_id en) \<in> e_id ` set (db_experiments d')"
      using b commit(5) d'' by simp
  qed
qed

lemma update_timescaledb_trace:
  assumes "update_timescaledb ev md cur d = (r, d', tr)"
  shows "(r \<noteq> None \<and> d' = d \<and> tr = [Rollback]) \<or>
         (r = None \<and> tr = [Commit, if refresh_fault_inner ev then RefreshFailed else RefreshOk])"
proof (cases rule: update_timescaledb_cases[of ev md cur d])
  case (rollback e)
  then show ?thesis using assms by simp
next
  case (commit st pop n d'')
  then show ?thesis using assms by simp
qed

section \<open>Provenance of the rows a cycle writes\<close>

lemma insert_popularity_app:
  "\<exists>sub. insert_popularity vs tbl = tbl @ sub \<and> set sub \<subseteq> set vs"
proof (induction vs arbitrary: tbl)
  case Nil
  then show ?case by simp
next
  case (Cons v vs)
  show ?case
  proof (cases "popularity_key v \<in> popularity_key ` set tbl")
    case True
    then show ?thesis using Cons.IH[of tbl] by auto
  next
    case False
    obtain sub where "insert_popularity vs (tbl @ [v]) = (tbl @ [v]) @ sub" "set sub \<subseteq> set vs"
      using Cons.IH[of "tbl @ [v]"] by blast
    then have "insert_popularity (v # vs) tbl = tbl @ (v # sub) \<and> set (v # sub) \<subseteq> set (v # vs)"
      using False by auto
    then show ?thesis by blast
  qed
qed

lemma insert_popularity_exact:
  "distinct (map popularity_key vs) \<Longrightarrow>
   popularity_key ` set vs \<inter> popularity_key ` set tbl = {} \<Longrightarrow>
   insert_popularity vs tbl = tbl @ vs"
proof (induction vs arbitrary: tbl)
  case Nil
  then show ?case by simp
next
  case (Cons v vs)
  have nv: "popularity_key v \<notin> popularity_key ` set tbl" using Cons.prems(2) by auto
  have "popularity_key ` set vs \<inter> popularity_key ` set (tbl @ [v]) = {}"
    using Cons.prems by auto
  then have "insert_popularity vs (tbl @ [v]) = (tbl @ [v]) @ vs"
    using Cons.IH Cons.prems(1) by simp
  then show ?case using nv by simp
qed

lemma insert_popularity_batches_app:
  "insert_popularity_batches ev bs (tbl, n) = Inr (pop, n') \<Longrightarrow>
   \<exists>sub. pop = tbl @ sub \<and> set sub \<subseteq> set (concat bs)"
proof (induction bs arbitrary: tbl n)
  case Nil
  then show ?case by simp
next
  case (Cons b bs)
  then have r: "insert_popularity_batches ev bs (insert_popularity b tbl, n + 1) = Inr (pop, n')"
    by (simp split: if_splits)
  obtain s1 where s1: "insert_popularity b tbl = tbl @ s1" "set s1 \<subseteq> set b"
    using insert_popularity_app by blast
  obtain s2 where s2: "pop = (tbl @ s1) @ s2" "set s2 \<subseteq> set (concat bs)"
    using Cons.IH[OF r] s1(1) by auto
  have "pop = tbl @ (s1 @ s2) \<and> set (s1 @ s2) \<subseteq> set (concat (b # bs))"
    using s1 s2 by auto
  then show ?case by blast
qed

lemma insert_popularity_batches_exact:
  "insert_popularity_batches ev bs (tbl, n) = Inr (pop, n') \<Longrightarrow>
   distinct (map popularity_key (concat bs)) \<Longrightarrow>
   popularity_key ` set (concat bs) \<inter> popularity_key ` set tbl = {} \<Longrightarrow>
   pop = tbl @ concat bs"
proof (induction bs arbitrary: tbl n)
  case Nil
  then show ?case by simp
next
  case (Cons b bs)
  then have r: "insert_popularity_batches ev bs (insert_popularity b tbl, n + 1) = Inr (pop, n')"
    by (simp split: if_splits)
  have b: "insert_popularity b tbl = tbl @ b"
    using Cons.prems(2,3) by (intro insert_popularity_exact) auto
  have d: "distinct (map popularity_key (concat bs))" using Cons.prems(2) by simp
  have A: "popularity_key ` set (concat bs) \<inter> popularity_key ` set tbl = {}"
    using Cons.prems(3) by (simp add: image_Un Int_Un_distrib2)
  have B: "popularity_key ` set (concat bs) \<inter> popularity_key ` set b = {}"
    using Cons.prems(2) by (simp add: Int_commute)
  have "popularity_key ` set (concat bs) \<inter> popularity_key ` set (tbl @ b) = {}"
    using A B by (simp add: image_Un Int_Un_distrib)
  from Cons.IH[OF r[unfolded b] d this] show ?case by simp
qed

lemma process_group_entries:
  assumes "process_group ev P keys cur ((dk, m), info) st = Inr st'"
  shows "\<exists>es. new_model_popularity_entries st' = new_model_popularity_entries st @ es \<and>
           (\<forall>r \<in> set es. p_extracted_time r = cur \<and> popularity_key r = (dk, m) \<and>
                          (dk, m) \<notin> keys \<and> g_experiments info \<noteq> []) \<and>
           length es \<le> 1"
proof (cases "new_of st info = []")
  case True
  then show ?thesis using process_group_fields(3)[OF assms] by simp
next
  case False
  then have "g_experiments info \<noteq> []" by (auto simp: new_of_def)
  then show ?thesis
    using process_group_fields(4)[OF assms False]
    by (auto simp: entry_of_def popularity_key_def)
qed

lemma groups_loop_entries:
  "groups_loop ev P keys cur md st = Inr st' \<Longrightarrow>
   \<exists>es. new_model_popularity_entries st' = new_model_popularity_entries st @ es \<and>
     (\<forall>r \<in> set es. p_extracted_time r = cur \<and> popularity_key r \<notin> keys \<and>
        (\<exists>item \<in> set md. popularity_key r = fst item \<and> g_experiments (snd item) \<noteq> []))"
proof (induction md arbitrary: st)
  case Nil
  then show ?case by simp
next
  case (Cons item md)
  obtain dk m info where item: "item = ((dk, m), info)" by (metis prod.exhaust)
  from Cons.prems obtain st1 where
    g: "process_group ev P keys cur ((dk, m), info) st = Inr st1"
    and r: "groups_loop ev P keys cur md st1 = Inr st'"
    by (auto simp: item split: sum.splits)
  from process_group_entries[OF g] obtain e1 where
    e1: "new_model_popularity_entries st1 = new_model_popularity_entries st @ e1"
        "\<forall>r \<in> set e1. p_extracted_time r = cur \<and> popularity_key r = (dk, m) \<and>
                          (dk, m) \<notin> keys \<and> g_experiments info \<noteq> []" by blast
  from Cons.IH[OF r] obtain e2 where
    e2: "new_model_popularity_entries st' = new_model_popularity_entries st1 @ e2"
        "\<forall>r \<in> set e2. p_extracted_time r = cur \<and> popularity_key r \<notin> keys \<and>
        (\<exists>item \<in> set md. popularity_key r = fst item \<and> g_experiments (snd item) \<noteq> [])" by blast
  have "new_model_popularity_entries st' = new_model_popularity_entries st @ (e1 @ e2)"
    using e1(1) e2(1) by simp
  moreover have "\<forall>r \<in> set (e1 @ e2). p_extracted_time r = cur \<and> popularity_key r \<notin> keys \<and>
        (\<exists>it \<in> set (item # md). popularity_key r = fst it \<and> g_experiments (snd it) \<noteq> [])"
    using e1(2) e2(2) by (auto simp: item)
  ultimately show ?case by blast
qed

lemma groups_loop_rows:
  "groups_loop ev P keys cur md st = Inr st' \<Longrightarrow>
   \<exists>rows. session_experiments st' = session_experiments st @ rows \<and>
     (\<forall>row \<in> set rows. \<exists>item \<in> set md. \<exists>en \<in> set (g_experiments (snd item)).
         row = entry_row (snd (fst item)) en)"
proof (induction md arbitrary: st)
  case Nil
  then show ?case by simp
next
  case (Cons item md)
  obtain dk m info where item: "item = ((dk, m), info)" by (metis prod.exhaust)
  from Cons.prems obtain st1 where
    g: "process_group ev P keys cur ((dk, m), info) st = Inr st1"
    and r: "groups_loop ev P keys cur md st1 = Inr st'"
    by (auto simp: item split: sum.splits)
  from process_group_fields(5)[OF g] obtain r1 where
    r1: "session_experiments st1 = session_experiments st @ r1"
        "set r1 \<subseteq> entry_row m ` set (new_of st info)" by blast
  from Cons.IH[OF r] obtain r2 where
    r2: "session_experiments st' = session_experiments st1 @ r2"
        "\<forall>row \<in> set r2. \<exists>item \<in> set md. \<exists>en \<in> set (g_experiments (snd item)).
         row = entry_row (snd (fst item)) en" by blast
  have "session_experiments st' = session_experiments st @ (r1 @ r2)"
    using r1(1) r2(1) by simp
  moreover have "\<forall>row \<in> set (r1 @ r2). \<exists>it \<in> set (item # md). \<exists>en \<in> set (g_experiments (snd it)).
         row = entry_row (snd (fst it)) en"
    using r1(2) r2(2) by (auto simp: item new_of_def)
  ultimately show ?case by blast
qed

lemma update_timescaledb_new_rows:
  assumes "update_timescaledb ev md cur d = (r, d', tr)"
  shows "\<exists>pn. db_popularity d' = db_popularity d @ pn \<and>
           (\<forall>row \<in> set pn. p_extracted_time row = cur \<and>
              (\<exists>item \<in> set md. popularity_key row = fst item \<and> g_experiments (snd item) \<noteq> []))"
    and "\<exists>en. db_experiments d' = db_experiments d @ en \<and>
           (\<forall>row \<in> set en. \<exists>item \<in> set md. \<exists>x \<in> set (g_experiments (snd item)).
              row = entry_row (snd (fst item)) x)"
proof -
  have "(\<exists>pn. db_popularity d' = db_popularity d @ pn \<and>
           (\<forall>row \<in> set pn. p_extracted_time row = cur \<and>
              (\<exists>item \<in> set md. popularity_key row = fst item \<and> g_experiments (snd item) \<noteq> []))) \<and>
        (\<exists>en. db_experiments d' = db_experiments d @ en \<and>
           (\<forall>row \<in> set en. \<exists>item \<in> set md. \<exists>x \<in> set (g_experiments (snd item)).
              row = entry_row (snd (fst item)) x))"
  proof (cases rule: update_timescaledb_cases[of ev md cur d])
    case (rollback e)
    then have "d' = d" using assms by simp
    then show ?thesis by simp
  next
    case (commit st pop n d'')
    have d'': "d'' = d'" using commit(4) assms by simp
    from groups_loop_entries[OF commit(1)] obtain es where
      es: "new_model_popularity_entries st = es"
          "\<forall>r \<in> set es. p_extracted_time r = cur \<and>
             (\<exists>item \<in> set md. popularity_key r = fst item \<and> g_experiments (snd item) \<noteq> [])"
      by (auto simp: initial_state_def)
    have cb: "concat (batches batch_size es) = es"
      by (rule concat_batches) (simp add: batch_size_def)
    from insert_popularity_batches_app[OF commit(2)] obtain sub where
      sub: "pop = db_popularity d @ sub" "set sub \<subseteq> set es"
      using es(1) cb by auto
    have p: "\<exists>pn. db_popularity d' = db_popularity d @ pn \<and>
           (\<forall>row \<in> set pn. p_extracted_time row = cur \<and>
              (\<exists>item \<in> set md. popularity_key row = fst item \<and> g_experiments (snd item) \<noteq> []))"
      using sub es(2) commit(6) d'' by (intro exI[of _ sub]) blast
    from groups_loop_rows[OF commit(1)] obtain rows where
      rows: "session_experiments st = db_experiments d @ rows"
        "\<forall>row \<in> set rows. \<exists>item \<in> set md. \<exists>en \<in> set (g_experiments (snd item)).
           row = entry_row (snd (fst item)) en"
      by (auto simp: initial_state_def)
    have e: "\<exists>en. db_experiments d' = db_experiments d @ en \<and>
           (\<forall>row \<in> set en. \<exists>item \<in> set md. \<exists>x \<in> set (g_experiments (snd item)).
              row = entry_row (snd (fst item)) x)"
      using rows commit(5) d'' by (intro exI[of _ rows]) simp
    from p e show ?thesis by blast
  qed
  then show "\<exists>pn. db_popularity d' = db_popularity d @ pn \<and>
           (\<forall>row \<in> set pn. p_extracted_time row = cur \<and>
              (\<exists>item \<in> set md. popularity_key row = fst item \<and> g_experiments (snd item) \<noteq> []))"
    and "\<exists>en. db_experiments d' = db_experiments d @ en \<and>
           (\<forall>row \<in> set en. \<exists>item \<in> set md. \<exists>x \<in> set (g_experiments (snd item)).
              row = entry_row (snd (fst item)) x)"
    by blast+
qed

lemma execute_task_extracted_time:
  "\<exists>pn. db_popularity (fst (snd (execute_task w ev source d))) = db_popularity d @ pn \<and>
        (\<forall>row \<in> set pn. p_extracted_time row = current_time w)"
proof (cases rule: execute_task_cases[of ev w source d])
  case source_error
  then show ?thesis by simp
next
  case no_experiments
  then show ?thesis by simp
next
  case (process_error exps e)
  then show ?thesis by simp
next
  case (persist exps md r1 d1 tr1 d2)
  from update_timescaledb_new_rows(1)[OF persist(4)] obtain pn where
    "db_popularity d1 = db_popularity d @ pn" "\<forall>row \<in> set pn. p_extracted_time row = current_time w"
    by blast
  then show ?thesis using persist(5,7) by auto
qed

lemma run_cycles_extracted_time:
  "\<exists>new. db_popularity (run_cycles w cycles d) = db_popularity d @ new \<and>
         (\<forall>r \<in> set new. p_extracted_time r = current_time w)"
proof (induction cycles arbitrary: d)
  case Nil
  then show ?case by simp
next
  case (Cons c cycles)
  obtain ev source where c: "c = (ev, source)" by (cases c)
  let ?d1 = "fst (snd (execute_task w ev source d))"
  obtain n1 where n1: "db_popularity ?d1 = db_popularity d @ n1"
      "\<forall>r \<in> set n1. p_extracted_time r = current_time w"
    using execute_task_extracted_time by blast
  obtain n2 where n2: "db_popularity (run_cycles w cycles ?d1) = db_popularity ?d1 @ n2"
      "\<forall>r \<in> set n2. p_extracted_time r = current_time w"
    using Cons.IH by blast
  have "db_popularity (run_cycles w (c # cycles) d) = db_popularity d @ (n1 @ n2)"
    using n1(1) n2(1) by (simp add: c)
  moreover have "\<forall>r \<in> set (n1 @ n2). p_extracted_time r = current_time w"
    using n1(2) n2(2) by auto
  ultimately show ?case by blast
qed

lemma execute_task_shared_timestamp:
  "execute_task (set_timestamp ts w) ev source d = execute_task w ev source d"
  by (simp add: execute_task_def set_timestamp_def extract_autosubmit_experiments_def)

lemma run_cycles_shared_timestamp:
  "run_cycles (set_timestamp ts w) cycles d = run_cycles w cycles d"
  by (induction cycles arbitrary: d) (auto simp: execute_task_shared_timestamp)

text \<open>
  C10: the timestamp of a worker is fixed at construction (\<open>datetime.now()\<close>
  when none is given), \<open>set_timestamp\<close> does not change it and has no effect
  on a cycle, and every bucket that the cycles of one worker instance add to the
  table carries that one timestamp.
\<close>

theorem extracted_time_fixed_at_construction:
  "current_time (init_worker interval now None) = now \<and>
   current_time (set_timestamp ts w) = current_time w \<and>
   execute_task (set_timestamp ts w) ev source d = execute_task w ev source d \<and>
   (\<exists>new. db_popularity (run_cycles (set_timestamp ts w) cycles d) = db_popularity d @ new \<and>
          (\<forall>r \<in> set new. p_extracted_time r = current_time w))"
proof -
  have "current_time (init_worker interval now None) = now"
    by (simp add: init_worker_def)
  moreover have "current_time (set_timestamp ts w) = current_time w"
    by (simp add: set_timestamp_def)
  moreover note execute_task_shared_timestamp[of ts w ev source d]
  moreover have "\<exists>new. db_popularity (run_cycles (set_timestamp ts w) cycles d) = db_popularity d @ new \<and>
          (\<forall>r \<in> set new. p_extracted_time r = current_time w)"
    unfolding run_cycles_shared_timestamp by (rule run_cycles_extracted_time)
  ultimately show ?thesis by blast
qed

theorem extracted_time_fixed_at_construction_witness:
  "\<exists>new. db_popularity (run_cycles (set_timestamp (datetime 2023 1 7) worker_5)
             [(no_faults, scenario_a), (no_faults, scenario_b)] empty_db) =
          db_popularity empty_db @ new \<and> length new = 2 \<and>
          (\<forall>r \<in> set new. p_extracted_time r = datetime 2023 1 5)"
proof -
  have ev: "db_popularity (run_cycles worker_5
             [(no_faults, scenario_a), (no_faults, scenario_b)] empty_db) =
            [bucket_a (datetime 2023 1 5), bucket_b (datetime 2023 1 5) 5]"
    using scenario_b_buckets [of 3600 "datetime 2023 1 5" 3600 "datetime 2023 1 5"]
    by (simp add: worker_5_def)
  have ct: "current_time worker_5 = datetime 2023 1 5"
    by (simp add: worker_5_def init_worker_def)
  have e: "db_popularity empty_db = []" by (simp add: empty_db_def)
  from extracted_time_fixed_at_construction
    [of 3600 "datetime 2023 1 5" "datetime 2023 1 7" worker_5 no_faults scenario_a empty_db
        "[(no_faults, scenario_a), (no_faults, scenario_b)]"]
  obtain new where
    n: "db_popularity (run_cycles (set_timestamp (datetime 2023 1 7) worker_5)
             [(no_faults, scenario_a), (no_faults, scenario_b)] empty_db) =
          db_popularity empty_db @ new"
       "\<forall>r \<in> set new. p_extracted_time r = current_time worker_5"
    by blast
  have "length new = 2"
    using n(1) ev e unfolding run_cycles_shared_timestamp by simp
  then show ?thesis using n ct by auto
qed

section \<open>From the source rows to the persisted rows\<close>

lemma map_entry_set:
  "item \<in> set (AList.map_entry k f xs) \<Longrightarrow>
   \<exists>v. (fst item, v) \<in> set xs \<and> (snd item = v \<or> (fst item = k \<and> snd item = f v))"
proof (induction xs)
  case Nil
  then show ?case by simp
next
  case (Cons p ps)
  show ?case
  proof (cases "fst p = k")
    case True
    then have "item = (k, f (snd p)) \<or> item \<in> set ps" using Cons.prems by auto
    then show ?thesis
    proof
      assume "item = (k, f (snd p))"
      then have "(fst item, snd p) \<in> set (p # ps) \<and> fst item = k \<and> snd item = f (snd p)"
        using True by (cases p) auto
      then show ?thesis by blast
    next
      assume "item \<in> set ps"
      then have "(fst item, snd item) \<in> set (p # ps)" by simp
      then show ?thesis by blast
    qed
  next
    case False
    then have "item = p \<or> item \<in> set (AList.map_entry k f ps)" using Cons.prems by auto
    then show ?thesis
    proof
      assume "item = p"
      then have "(fst item, snd item) \<in> set (p # ps)" by simp
      then show ?thesis by blast
    next
      assume "item \<in> set (AList.map_entry k f ps)"
      from Cons.IH[OF this] show ?thesis by auto
    qed
  qed
qed

lemma process_loop_grounded:
  assumes "process_loop exps md0 = Inr md"
    and "\<forall>item \<in> set md0. \<forall>en \<in> set (g_experiments (snd item)).
           \<exists>x \<in> X. \<exists>cd. credated x = Some cd \<and> x_id en = exp_id x \<and>
             fst item = (replace_midnight cd, model x)"
    and "set exps \<subseteq> X"
  shows "\<forall>item \<in> set md. \<forall>en \<in> set (g_experiments (snd item)).
           \<exists>x \<in> X. \<exists>cd. credated x = Some cd \<and> x_id en = exp_id x \<and>
             fst item = (replace_midnight cd, model x)"
  using assms
proof (induction exps arbitrary: md0)
  case Nil
  then show ?case by simp
next
  case (Cons exp rest)
  from Cons.prems(1) obtain cd where cd: "credated exp = Some cd"
    by (auto split: option.splits)
  define key where "key = (replace_midnight cd, model exp)"
  define entry where "entry = \<lparr>x_id = exp_id exp, x_name = name exp, x_created_time = cd\<rparr>"
  define md1 where "md1 = (if key \<notin> fst ` set md0
                     then md0 @ [(key, \<lparr>g_model = model exp, g_time = replace_midnight cd,
                                  g_count = 0, g_experiments = []\<rparr>)]
                     else md0)"
  define md2 where "md2 = AList.map_entry key
                      (\<lambda>g. g\<lparr>g_experiments := g_experiments g @ [entry]\<rparr>) md1"
  define md3 where "md3 = AList.map_entry key (\<lambda>g. g\<lparr>g_count := g_count g + 1\<rparr>) md2"
  have rec: "process_loop rest md3 = Inr md"
    using Cons.prems(1) cd
    by (cases "(replace_midnight cd, model exp) \<in> fst ` set md0")
       (simp_all add: Let_def md3_def md2_def md1_def key_def entry_def)
  have ex: "exp \<in> X" using Cons.prems(3) by simp
  have g3: "\<forall>item \<in> set md3. \<forall>en \<in> set (g_experiments (snd item)).
           \<exists>x \<in> X. \<exists>cd. credated x = Some cd \<and> x_id en = exp_id x \<and>
             fst item = (replace_midnight cd, model x)"
  proof (intro ballI)
    fix item en
    assume i3: "item \<in> set md3" and en: "en \<in> set (g_experiments (snd item))"
    from map_entry_set[OF i3[unfolded md3_def]] obtain v2 where
      v2: "(fst item, v2) \<in> set md2" "g_experiments (snd item) = g_experiments v2"
      by auto
    from map_entry_set[OF v2(1)[unfolded md2_def]] obtain v1 where
      v1: "(fst item, v1) \<in> set md1"
          "v2 = v1 \<or> (fst item = key \<and> v2 = v1\<lparr>g_experiments := g_experiments v1 @ [entry]\<rparr>)"
      by auto
    have old: "en \<in> set (g_experiments v1) \<Longrightarrow>
          \<exists>x \<in> X. \<exists>cd. credated x = Some cd \<and> x_id en = exp_id x \<and>
             fst item = (replace_midnight cd, model x)"
    proof -
      assume a: "en \<in> set (g_experiments v1)"
      have "(fst item, v1) \<in> set md0"
        using v1(1) a by (auto simp: md1_def split: if_splits)
      then show ?thesis using Cons.prems(2) a by force
    qed
    from v1(2) show "\<exists>x \<in> X. \<exists>cd. credated x = Some cd \<and> x_id en = exp_id x \<and>
             fst item = (replace_midnight cd, model x)"
    proof
      assume "v2 = v1"
      then show ?thesis using old en v2(2) by simp
    next
      assume b: "fst item = key \<and> v2 = v1\<lparr>g_experiments := g_experiments v1 @ [entry]\<rparr>"
      then have "en \<in> set (g_experiments v1) \<or> en = entry" using en v2(2) by auto
      then show ?thesis
      proof
        assume "en \<in> set (g_experiments v1)"
        then show ?thesis by (rule old)
      next
        assume "en = entry"
        then have "credated exp = Some cd \<and> x_id en = exp_id exp \<and>
             fst item = (replace_midnight cd, model exp)"
          using cd b by (simp add: entry_def key_def)
        then show ?thesis using ex by blast
      qed
    qed
  qed
  have "set rest \<subseteq> X" using Cons.prems(3) by simp
  from Cons.IH[OF rec g3 this] show ?case .
qed

lemma extract_source:
  assumes "extract_autosubmit_experiments w ev source = Inr exps" and "x \<in> set exps"
  shows "\<exists>s \<in> set source. model s \<notin> set (invalid_model_values w) \<and>
           exp_id x = exp_id s \<and> credated x = credated s \<and>
           model x = clean_model_name (model s)"
proof -
  from assms obtain s where "s \<in> set source" "model s \<notin> set (invalid_model_values w)"
    "x = s\<lparr>model := clean_model_name (model s)\<rparr>"
    by (auto simp: extract_autosubmit_experiments_def split: if_splits)
  then have "model s \<notin> set (invalid_model_values w) \<and>
           exp_id x = exp_id s \<and> credated x = credated s \<and>
           model x = clean_model_name (model s)" by simp
  then show ?thesis using \<open>s \<in> set source\<close> by blast
qed

lemma process_experiments_grounded:
  assumes "process_experiments exps = Inr md" and "item \<in> set md"
    and "en \<in> set (g_experiments (snd item))"
  shows "\<exists>x \<in> set exps. \<exists>cd. credated x = Some cd \<and> x_id en = exp_id x \<and>
           fst item = (replace_midnight cd, model x)"
proof -
  have "\<forall>item \<in> set md. \<forall>en \<in> set (g_experiments (snd item)).
           \<exists>x \<in> set exps. \<exists>cd. credated x = Some cd \<and> x_id en = exp_id x \<and>
             fst item = (replace_midnight cd, model x)"
    by (rule process_loop_grounded[OF assms(1)[unfolded process_experiments_def]]) simp_all
  then show ?thesis using assms(2,3) by blast
qed

text \<open>
  C6 (amended): the rows a cycle adds to the store come from source rows whose
  raw model is not one of \<open>invalid_model_values\<close>: an added experiment has
  the id of such a row and the cleaned form of its model, an added bucket has
  the cleaned model of such a row. Rows whose raw model is denylisted contribute
  nothing.
\<close>

theorem denylist_applies_to_raw_values:
  assumes "execute_task w ev source d = (r, d', tr)"
  shows "\<exists>en pn. db_experiments d' = db_experiments d @ en \<and>
           db_popularity d' = db_popularity d @ pn \<and>
           (\<forall>row \<in> set en. \<exists>s \<in> set source. model s \<notin> set (invalid_model_values w) \<and>
               e_id row = str_of_int (exp_id s) \<and> e_model row = clean_model_name (model s)) \<and>
           (\<forall>row \<in> set pn. \<exists>s \<in> set source. model s \<notin> set (invalid_model_values w) \<and>
               p_model row = clean_model_name (model s))"
proof (cases rule: execute_task_cases[of ev w source d])
  case source_error
  then have "d' = d" using assms by simp
  then show ?thesis by simp
next
  case no_experiments
  then have "d' = d" using assms by simp
  then show ?thesis by simp
next
  case (process_error exps e)
  then have "d' = d" using assms by simp
  then show ?thesis by simp
next
  case (persist exps md r1 d1 tr1 d2)
  have d2: "d2 = d'" using persist(5) assms by simp
  from update_timescaledb_new_rows[OF persist(4)] obtain pn en where
    pn: "db_popularity d1 = db_popularity d @ pn"
        "\<forall>row \<in> set pn. \<exists>item \<in> set md. popularity_key row = fst item \<and>
            g_experiments (snd item) \<noteq> []"
    and en: "db_experiments d1 = db_experiments d @ en"
        "\<forall>row \<in> set en. \<exists>item \<in> set md. \<exists>x \<in> set (g_experiments (snd item)).
              row = entry_row (snd (fst item)) x"
    by blast
  have e: "\<forall>row \<in> set en. \<exists>s \<in> set source. model s \<notin> set (invalid_model_values w) \<and>
               e_id row = str_of_int (exp_id s) \<and> e_model row = clean_model_name (model s)"
  proof
    fix row assume "row \<in> set en"
    then obtain item x where ix: "item \<in> set md" "x \<in> set (g_experiments (snd item))"
      "row = entry_row (snd (fst item)) x" using en(2) by blast
    from process_experiments_grounded[OF persist(3) ix(1,2)] obtain ex cd where
      ex: "ex \<in> set exps" "x_id x = exp_id ex" "fst item = (replace_midnight cd, model ex)"
      by blast
    from extract_source[OF persist(2) ex(1)] obtain s where
      s: "s \<in> set source" "model s \<notin> set (invalid_model_values w)" "exp_id ex = exp_id s"
         "model ex = clean_model_name (model s)" by blast
    have "e_id row = str_of_int (exp_id s) \<and> e_model row = clean_model_name (model s)"
      using ix(3) ex(2,3) s(3,4) by (simp add: entry_row_def)
    then show "\<exists>s \<in> set source. model s \<notin> set (invalid_model_values w) \<and>
               e_id row = str_of_int (exp_id s) \<and> e_model row = clean_model_name (model s)"
      using s(1,2) by blast
  qed
  have p: "\<forall>row \<in> set pn. \<exists>s \<in> set source. model s \<notin> set (invalid_model_values w) \<and>
               p_model row = clean_model_name (model s)"
  proof
    fix row assume "row \<in> set pn"
    then obtain item where it: "item \<in> set md" "popularity_key row = fst item"
      "g_experiments (snd item) \<noteq> []" using pn(2) by blast
    then obtain x where x: "x \<in> set (g_experiments (snd item))"
      by (meson last_in_set)
    from process_experiments_grounded[OF persist(3) it(1) x] obtain ex cd where
      ex: "ex \<in> set exps" "fst item = (replace_midnight cd, model ex)"
      by blast
    from extract_source[OF persist(2) ex(1)] obtain s where
      s: "s \<in> set source" "model s \<notin> set (invalid_model_values w)"
         "model ex = clean_model_name (model s)" by blast
    have "p_model row = snd (popularity_key row)" by (simp add: popularity_key_def)
    then have "p_model row = clean_model_name (model s)"
      using it(2) ex(2) s(3) by simp
    then show "\<exists>s \<in> set source. model s \<notin> set (invalid_model_values w) \<and>
               p_model row = clean_model_name (model s)"
      using s(1,2) by blast
  qed
  show ?thesis
    using pn(1) en(1) e p persist(6,7) d2 by (intro exI[of _ en] exI[of _ pn]) simp
qed

text \<open>
  C6 (as stated): no denylisted value is the category of a persisted row. The
  filter looks at the raw value and cleaning comes after it: the raw value
  \<open>NA/\<close> passes the filter and is persisted as \<open>NA\<close>.
\<close>

theorem denylisted_category_persisted:
  "''NA'' \<in> set (invalid_model_values worker_5) \<and>
   map e_model (db_experiments (fst (snd (execute_task worker_5 no_faults scenario_c empty_db)))) =
     [''NA''] \<and>
   map p_model (db_popularity (fst (snd (execute_task worker_5 no_faults scenario_c empty_db)))) =
     [''NA'']"
  by (simp add: cycle_defs scenario_c_def worker_5_def)

theorem denylist_applies_to_raw_values_witness:
  "\<exists>en pn. db_experiments (fst (snd (execute_task worker_5 no_faults scenario_c empty_db))) =
             db_experiments empty_db @ en \<and>
           db_popularity (fst (snd (execute_task worker_5 no_faults scenario_c empty_db))) =
             db_popularity empty_db @ pn \<and> en \<noteq> [] \<and> pn \<noteq> [] \<and>
           (\<forall>row \<in> set en. \<exists>s \<in> set scenario_c. model s \<notin> set (invalid_model_values worker_5) \<and>
               e_id row = str_of_int (exp_id s) \<and> e_model row = clean_model_name (model s)) \<and>
           (\<forall>row \<in> set pn. \<exists>s \<in> set scenario_c. model s \<notin> set (invalid_model_values worker_5) \<and>
               p_model row = clean_model_name (model s))"
proof -
  have tp: "\<And>x :: error option \<times> db \<times> event list. x = (fst x, fst (snd x), snd (snd x))"
    by simp
  have ne: "db_experiments (fst (snd (execute_task worker_5 no_faults scenario_c empty_db))) \<noteq> []"
    "db_popularity (fst (snd (execute_task worker_5 no_faults scenario_c empty_db))) \<noteq> []"
    by (simp_all add: cycle_defs scenario_c_def worker_5_def)
  have e: "db_experiments empty_db = []" "db_popularity empty_db = []"
    by (simp_all add: empty_db_def)
  from denylist_applies_to_raw_values[OF tp, of worker_5 no_faults scenario_c empty_db]
  obtain en pn where
    "db_experiments (fst (snd (execute_task worker_5 no_faults scenario_c empty_db))) =
             db_experiments empty_db @ en"
    "db_popularity (fst (snd (execute_task worker_5 no_faults scenario_c empty_db))) =
             db_popularity empty_db @ pn"
    "\<forall>row \<in> set en. \<exists>s \<in> set scenario_c. model s \<notin> set (invalid_model_values worker_5) \<and>
               e_id row = str_of_int (exp_id s) \<and> e_model row = clean_model_name (model s)"
    "\<forall>row \<in> set pn. \<exists>s \<in> set scenario_c. model s \<notin> set (invalid_model_values worker_5) \<and>
               p_model row = clean_model_name (model s)"
    by blast
  moreover from this ne e have "en \<noteq> []" "pn \<noteq> []" by auto
  ultimately show ?thesis by blast
qed

section \<open>Failure of the persist step\<close>

lemma ieb_fault:
  assumes "write_fault ev = None"
  shows "insert_experiment_batches ev m bs st = Inr st' \<Longrightarrow>
     insert_experiment_batches (ev\<lparr>write_fault := Some k\<rparr>) m bs st =
       (if statements st \<le> k \<and> k < statements st' then Inl OperationalError else Inr st')"
proof (induction bs arbitrary: st)
  case Nil
  then show ?case by auto
next
  case (Cons b bs)
  let ?st1 = "\<lambda>tbl. st\<lparr>session_experiments := tbl, statements := statements st + 1,
                  existing_experiment_ids :=
                    existing_experiment_ids st \<union> PyInt ` x_id ` set b\<rparr>"
  from Cons.prems obtain tbl where
    t: "insert_experiments (map (entry_row m) b) (session_experiments st) = Inr tbl"
    and r: "insert_experiment_batches ev m bs (?st1 tbl) = Inr st'"
    using assms by (auto split: if_splits sum.splits)
  have n: "statements st' = statements st + 1 + length bs" using ieb_fields[OF r] by simp
  show ?case
  proof (cases "k = statements st")
    case True
    then show ?thesis using n by simp
  next
    case False
    then show ?thesis using Cons.IH[OF r] t n by auto
  qed
qed

lemma process_group_statements:
  assumes "process_group ev P keys cur ((dk, m), info) st = Inr st'"
  shows "statements st \<le> statements st'"
proof (cases "new_of st info = []")
  case True
  then show ?thesis using process_group_fields(3)[OF assms] by simp
next
  case False
  from ieb_fields[OF process_group_new[OF assms False]] show ?thesis by simp
qed

lemma groups_loop_statements:
  "groups_loop ev P keys cur md st = Inr st' \<Longrightarrow> statements st \<le> statements st'"
proof (induction md arbitrary: st)
  case Nil
  then show ?case by simp
next
  case (Cons item md)
  obtain dk m info where item: "item = ((dk, m), info)" by (metis prod.exhaust)
  from Cons.prems obtain st1 where
    g: "process_group ev P keys cur ((dk, m), info) st = Inr st1"
    and r: "groups_loop ev P keys cur md st1 = Inr st'"
    by (auto simp: item split: sum.splits)
  from process_group_statements[OF g] Cons.IH[OF r] show ?case by simp
qed

lemma process_group_unfold:
  "new_of st info \<noteq> [] \<Longrightarrow>
   process_group ev P keys cur ((dk, m), info) st =
     insert_experiment_batches ev m (batches batch_size (new_of st info))
           (st\<lparr>models_historical_count :=
                  (models_historical_count st)
                    (m \<mapsto> prior_of ev P st m + int (length (new_of st info))),
               new_model_popularity_entries :=
                  new_model_popularity_entries st @
                  (if (dk, m) \<notin> keys
                   then [entry_of cur dk m (int (length (new_of st info)))
                           (prior_of ev P st m + int (length (new_of st info)))]
                   else [])\<rparr>)"
  by (cases "(dk, m) \<in> keys")
     (simp_all add: process_group_def new_of_def prior_of_def entry_of_def Let_def)

lemma prior_of_write_fault:
  "prior_of (ev\<lparr>write_fault := f\<rparr>) P st m = prior_of ev P st m"
  by (simp add: prior_of_def initial_historical_count_def latest_record_def
           split: option.splits)

lemma process_group_fault:
  assumes "write_fault ev = None"
    and "process_group ev P keys cur item st = Inr st'"
  shows "process_group (ev\<lparr>write_fault := Some k\<rparr>) P keys cur item st =
       (if statements st \<le> k \<and> k < statements st' then Inl OperationalError else Inr st')"
proof -
  obtain dk m info where item: "item = ((dk, m), info)" by (metis prod.exhaust)
  show ?thesis
  proof (cases "new_of st info = []")
    case True
    then have "st' = st" using process_group_fields(3) assms(2) item by blast
    then show ?thesis using True by (simp add: item process_group_skip)
  next
    case False
    note b = assms(2)[unfolded item process_group_unfold[OF False]]
    show ?thesis
      unfolding item process_group_unfold[OF False] prior_of_write_fault
      using ieb_fault[OF assms(1) b, of k] by simp
  qed
qed

lemma groups_loop_fault:
  assumes "write_fault ev = None"
  shows "groups_loop ev P keys cur md st = Inr st' \<Longrightarrow>
     groups_loop (ev\<lparr>write_fault := Some k\<rparr>) P keys cur md st =
       (if statements st \<le> k \<and> k < statements st' then Inl OperationalError else Inr st')"
proof (induction md arbitrary: st)
  case Nil
  then show ?case by auto
next
  case (Cons item md)
  from Cons.prems obtain st1 where
    g: "process_group ev P keys cur item st = Inr st1"
    and r: "groups_loop ev P keys cur md st1 = Inr st'"
    by (auto split: sum.splits)
  obtain dk m info where item: "item = ((dk, m), info)" by (metis prod.exhaust)
  have m1: "statements st \<le> statements st1"
    using process_group_statements g unfolding item by blast
  have m2: "statements st1 \<le> statements st'" using groups_loop_statements[OF r] .
  show ?case
    using process_group_fault[OF assms g, of k] Cons.IH[OF r] m1 m2 by auto
qed

lemma ipb_fault:
  assumes "write_fault ev = None"
  shows "insert_popularity_batches ev bs (tbl, n) = Inr (pop, n') \<Longrightarrow>
     n \<le> n' \<and>
     insert_popularity_batches (ev\<lparr>write_fault := Some k\<rparr>) bs (tbl, n) =
       (if n \<le> k \<and> k < n' then Inl OperationalError else Inr (pop, n'))"
proof (induction bs arbitrary: tbl n)
  case Nil
  then show ?case by auto
next
  case (Cons b bs)
  from Cons.prems have
    r: "insert_popularity_batches ev bs (insert_popularity b tbl, n + 1) = Inr (pop, n')"
    using assms by simp
  from Cons.IH[OF r] show ?case by auto
qed

lemma update_timescaledb_write_fault:
  assumes "write_fault ev = None" and "statements_issued ev md cur d = Some n" and "k < n"
  shows "update_timescaledb (ev\<lparr>write_fault := Some k\<rparr>) md cur d =
           (Some OperationalError, d, [Rollback])"
proof -
  let ?P = "db_popularity d"
  let ?K = "popularity_key ` set (db_popularity d)"
  from assms(2) obtain st pop where
    g: "groups_loop ev ?P ?K cur md (initial_state d) = Inr st"
    and i: "insert_popularity_batches ev (batches batch_size (new_model_popularity_entries st))
              (?P, statements st) = Inr (pop, n)"
    by (auto simp: statements_issued_def split: sum.splits prod.splits)
  note gf = groups_loop_fault[OF assms(1) g, of k]
  note pf = ipb_fault[OF assms(1) i, of k]
  have z: "statements (initial_state d) = 0" by (simp add: initial_state_def)
  show ?thesis
  proof (cases "k < statements st")
    case True
    then show ?thesis using gf z by (simp add: update_timescaledb_def)
  next
    case False
    then show ?thesis using gf pf assms(3) by (simp add: update_timescaledb_def)
  qed
qed

lemma update_timescaledb_write_error:
  assumes "statements_issued ev md cur d = None"
  shows "\<exists>e. update_timescaledb ev md cur d = (Some e, d, [Rollback])"
  using assms
  by (auto simp: statements_issued_def update_timescaledb_def split: sum.splits prod.splits)


lemma insert_popularity_append:
  "insert_popularity (vs @ ws) tbl = insert_popularity ws (insert_popularity vs tbl)"
  by (induction vs arbitrary: tbl) simp_all

lemma insert_popularity_keys:
  "popularity_key ` set (insert_popularity vs tbl) =
     popularity_key ` set tbl \<union> popularity_key ` set vs"
  by (induction vs arbitrary: tbl) auto

lemma insert_popularity_batches_concat:
  "insert_popularity_batches ev bs (tbl, n) = Inr (pop, n') \<Longrightarrow>
   pop = insert_popularity (concat bs) tbl"
proof (induction bs arbitrary: tbl n)
  case Nil
  then show ?case by simp
next
  case (Cons b bs)
  from Cons.prems have
    "insert_popularity_batches ev bs (insert_popularity b tbl, n + 1) = Inr (pop, n')"
    by (simp split: if_splits)
  from Cons.IH[OF this] show ?case by (simp add: insert_popularity_append)
qed

lemma member_ids_Cons:
  "member_ids (item # md) = map x_id (g_experiments (snd item)) @ member_ids md"
  by (simp add: member_ids_def)

lemma groups_loop_buckets:
  "groups_loop ev P keys cur md st = Inr st' \<Longrightarrow> distinct (member_ids md) \<Longrightarrow>
   \<forall>i \<in> set (member_ids md). PyInt i \<notin> existing_experiment_ids st \<Longrightarrow>
   \<forall>item \<in> set md. g_experiments (snd item) \<noteq> [] \<longrightarrow>
      fst item \<in> keys \<union> popularity_key ` set (new_model_popularity_entries st')"
proof (induction md arbitrary: st)
  case Nil
  then show ?case by simp
next
  case (Cons item md)
  obtain dk m info where item: "item = ((dk, m), info)" by (metis prod.exhaust)
  from Cons.prems(1) obtain st1 where
    g: "process_group ev P keys cur ((dk, m), info) st = Inr st1"
    and r: "groups_loop ev P keys cur md st1 = Inr st'"
    by (auto simp: item split: sum.splits)
  note f = process_group_fields[OF g]
  have ids: "member_ids (item # md) = map x_id (g_experiments info) @ member_ids md"
    by (simp add: member_ids_Cons item)
  have new: "new_of st info = g_experiments info"
    unfolding new_of_def using Cons.prems(3) by (intro filter_True) (simp add: ids)
  from groups_loop_entries[OF r] obtain es where
    es: "new_model_popularity_entries st' = new_model_popularity_entries st1 @ es" by blast
  have here: "(dk, m) \<in> keys \<union> popularity_key ` set (new_model_popularity_entries st')"
    if ne: "g_experiments info \<noteq> []"
  proof (cases "(dk, m) \<in> keys")
    case True
    then show ?thesis by simp
  next
    case False
    from f(4) ne new False have
      "new_model_popularity_entries st1 =
         new_model_popularity_entries st @
         [entry_of cur dk m (int (length (g_experiments info)))
            (prior_of ev P st m + int (length (g_experiments info)))]"
      by simp
    then show ?thesis unfolding es by (simp add: popularity_key_def entry_of_def)
  qed
  have d: "distinct (member_ids md)" using Cons.prems(2) unfolding ids by simp
  have fresh: "\<forall>i \<in> set (member_ids md). PyInt i \<notin> existing_experiment_ids st1"
  proof
    fix i
    assume i: "i \<in> set (member_ids md)"
    then have "PyInt i \<notin> existing_experiment_ids st" using Cons.prems(3) by (simp add: ids)
    moreover have "i \<notin> x_id ` set (g_experiments info)"
      using Cons.prems(2) i unfolding ids by auto
    ultimately show "PyInt i \<notin> existing_experiment_ids st1" unfolding f(1) by auto
  qed
  from Cons.IH[OF r d fresh] here show ?case by (simp add: item)
qed

lemma update_timescaledb_commit:
  assumes "update_timescaledb ev md cur d = (None, d', tr)"
  shows "tr = [Commit, if refresh_fault_inner ev then RefreshFailed else RefreshOk]"
    and "\<not> commit_fault ev"
    and "\<exists>st. groups_loop ev (db_popularity d) (popularity_key ` set (db_popularity d)) cur md
                (initial_state d) = Inr st \<and>
              db_experiments d' = session_experiments st \<and>
              db_popularity d' =
                insert_popularity (new_model_popularity_entries st) (db_popularity d)"
    and "\<forall>item \<in> set md. \<forall>en \<in> set (g_experiments (snd item)).
           str_of_int (x_id en) \<in> e_id ` set (db_experiments d')"
    and "distinct (member_ids md) \<Longrightarrow>
         \<forall>item \<in> set md. g_experiments (snd item) \<noteq> [] \<longrightarrow>
           fst item \<in> popularity_key ` set (db_popularity d')"
proof -
  show tr: "tr = [Commit, if refresh_fault_inner ev then RefreshFailed else RefreshOk]"
    using update_timescaledb_trace[OF assms] by simp
  then have nr: "Rollback \<notin> set tr" by simp
  show "\<forall>item \<in> set md. \<forall>en \<in> set (g_experiments (snd item)).
           str_of_int (x_id en) \<in> e_id ` set (db_experiments d')"
    by (rule update_timescaledb_covers[OF assms nr])
  have "\<not> commit_fault ev \<and>
        (\<exists>st. groups_loop ev (db_popularity d) (popularity_key ` set (db_popularity d)) cur md
                (initial_state d) = Inr st \<and>
              db_experiments d' = session_experiments st \<and>
              db_popularity d' =
                insert_popularity (new_model_popularity_entries st) (db_popularity d))"
  proof (cases rule: update_timescaledb_cases[of ev md cur d])
    case (rollback e)
    then show ?thesis using assms by simp
  next
    case (commit st pop n d'')
    have d'': "d'' = d'" using commit(4) assms by simp
    have "pop = insert_popularity (new_model_popularity_entries st) (db_popularity d)"
      using insert_popularity_batches_concat[OF commit(2)]
      by (simp add: concat_batches batch_size_def)
    then show ?thesis using commit(1,3,5,6) d'' by blast
  qed
  then show "\<not> commit_fault ev"
    and ex: "\<exists>st. groups_loop ev (db_popularity d) (popularity_key ` set (db_popularity d)) cur md
                (initial_state d) = Inr st \<and>
              db_experiments d' = session_experiments st \<and>
              db_popularity d' =
                insert_popularity (new_model_popularity_entries st) (db_popularity d)"
    by blast+
  show "\<forall>item \<in> set md. g_experiments (snd item) \<noteq> [] \<longrightarrow>
           fst item \<in> popularity_key ` set (db_popularity d')"
    if dist: "distinct (member_ids md)"
  proof -
    from ex obtain st where
      g: "groups_loop ev (db_popularity d) (popularity_key ` set (db_popularity d)) cur md
            (initial_state d) = Inr st"
      and p: "db_popularity d' =
                insert_popularity (new_model_popularity_entries st) (db_popularity d)"
      by blast
    have fresh: "\<forall>i \<in> set (member_ids md). PyInt i \<notin> existing_experiment_ids (initial_state d)"
      by (auto simp: initial_state_def)
    from groups_loop_buckets[OF g dist fresh] show ?thesis
      unfolding p insert_popularity_keys by blast
  qed
qed

lemma scenario_a_groups:
  "extract_autosubmit_experiments worker_5 no_faults scenario_a = Inr exps \<Longrightarrow>
   process_experiments exps = Inr scenario_a_groups"
  by (auto simp: cycle_defs scenario_a_def scenario_a_groups_def worker_5_def)

text \<open>
  C1 (as stated): an error of the write is propagated to the caller of the
  cycle. Here the second \<^verbatim>\<open>INSERT\<close> violates the unique constraint on the name;
  the session is rolled back, and \<open>execute_task\<close> returns normally.
\<close>

theorem persist_error_not_raised_to_caller:
  "execute_task worker_5 no_faults conflicting_names empty_db =
     (None, empty_db, [Rollback, RefreshOk])"
  by (simp add: cycle_defs conflicting_names_def worker_5_def)

text \<open>
  C1 (amended): \<open>_update_timescaledb\<close> either raises, and then the store is
  what it was and the session was rolled back, or commits once, and then the
  committed store holds the whole write set: the table of experiments is the
  one the session built, with a row for the id of every member of every group,
  every popularity entry of the loop has been inserted, and (member ids being
  distinct) every non-empty group has its bucket. When the \<open>k\<close>-th \<^verbatim>\<open>INSERT\<close> of a
  write of \<open>n > k\<close> statements fails, or any statement raises, or the commit
  fails, the error is raised and the store is what it was. In a cycle whose
  persist step was rolled back the tables of experiments and buckets are
  unchanged and nothing was committed; the error of the persist step is not
  raised by \<open>execute_task\<close>, which returns normally unless the refresh that
  follows fails.
\<close>

theorem persist_is_one_transaction:
  "(update_timescaledb ev md cur d = (Some e, d', tr) \<longrightarrow> d' = d \<and> tr = [Rollback]) \<and>
   (update_timescaledb ev md cur d = (None, d', tr) \<longrightarrow>
      tr = [Commit, if refresh_fault_inner ev then RefreshFailed else RefreshOk] \<and>
      (\<exists>st. groups_loop ev (db_popularity d) (popularity_key ` set (db_popularity d)) cur md
                (initial_state d) = Inr st \<and>
            db_experiments d' = session_experiments st \<and>
            db_popularity d' =
              insert_popularity (new_model_popularity_entries st) (db_popularity d)) \<and>
      (\<forall>item \<in> set md. \<forall>en \<in> set (g_experiments (snd item)).
          str_of_int (x_id en) \<in> e_id ` set (db_experiments d')) \<and>
      (distinct (member_ids md) \<longrightarrow>
         (\<forall>item \<in> set md. g_experiments (snd item) \<noteq> [] \<longrightarrow>
            fst item \<in> popularity_key ` set (db_popularity d')))) \<and>
   (write_fault ev = None \<and> statements_issued ev md cur d = Some n \<and> k < n \<longrightarrow>
      update_timescaledb (ev\<lparr>write_fault := Some k\<rparr>) md cur d =
        (Some OperationalError, d, [Rollback])) \<and>
   (statements_issued ev md cur d = None \<longrightarrow>
      (\<exists>x. update_timescaledb ev md cur d = (Some x, d, [Rollback]))) \<and>
   (commit_fault ev \<longrightarrow> (\<exists>x. update_timescaledb ev md cur d = (Some x, d, [Rollback]))) \<and>
   (execute_task w ev source d = (r, d'', tr') \<and> Rollback \<in> set tr' \<longrightarrow>
      db_experiments d'' = db_experiments d \<and> db_popularity d'' = db_popularity d \<and>
      Commit \<notin> set tr' \<and>
      r = (if refresh_fault_outer ev then Some DatabaseException else None))"
proof -
  have a: "update_timescaledb ev md cur d = (Some e, d', tr) \<longrightarrow> d' = d \<and> tr = [Rollback]"
    using update_timescaledb_trace by blast
  have b: "update_timescaledb ev md cur d = (None, d', tr) \<longrightarrow>
      tr = [Commit, if refresh_fault_inner ev then RefreshFailed else RefreshOk] \<and>
      (\<exists>st. groups_loop ev (db_popularity d) (popularity_key ` set (db_popularity d)) cur md
                (initial_state d) = Inr st \<and>
            db_experiments d' = session_experiments st \<and>
            db_popularity d' =
              insert_popularity (new_model_popularity_entries st) (db_popularity d)) \<and>
      (\<forall>item \<in> set md. \<forall>en \<in> set (g_experiments (snd item)).
          str_of_int (x_id en) \<in> e_id ` set (db_experiments d')) \<and>
      (distinct (member_ids md) \<longrightarrow>
         (\<forall>item \<in> set md. g_experiments (snd item) \<noteq> [] \<longrightarrow>
            fst item \<in> popularity_key ` set (db_popularity d')))"
  proof
    assume u: "update_timescaledb ev md cur d = (None, d', tr)"
    note c = update_timescaledb_commit[OF u]
    from c(1) c(3) c(4) c(5) show
     "tr = [Commit, if refresh_fault_inner ev then RefreshFailed else RefreshOk] \<and>
      (\<exists>st. groups_loop ev (db_popularity d) (popularity_key ` set (db_popularity d)) cur md
                (initial_state d) = Inr st \<and>
            db_experiments d' = session_experiments st \<and>
            db_popularity d' =
              insert_popularity (new_model_popularity_entries st) (db_popularity d)) \<and>
      (\<forall>item \<in> set md. \<forall>en \<in> set (g_experiments (snd item)).
          str_of_int (x_id en) \<in> e_id ` set (db_experiments d')) \<and>
      (distinct (member_ids md) \<longrightarrow>
         (\<forall>item \<in> set md. g_experiments (snd item) \<noteq> [] \<longrightarrow>
            fst item \<in> popularity_key ` set (db_popularity d')))"
      by blast
  qed
  have wf: "write_fault ev = None \<and> statements_issued ev md cur d = Some n \<and> k < n \<longrightarrow>
      update_timescaledb (ev\<lparr>write_fault := Some k\<rparr>) md cur d =
        (Some OperationalError, d, [Rollback])"
    using update_timescaledb_write_fault by blast
  have we: "statements_issued ev md cur d = None \<longrightarrow>
      (\<exists>x. update_timescaledb ev md cur d = (Some x, d, [Rollback]))"
    using update_timescaledb_write_error by blast
  have c: "commit_fault ev \<longrightarrow> (\<exists>x. update_timescaledb ev md cur d = (Some x, d, [Rollback]))"
    by (cases rule: update_timescaledb_cases[of ev md cur d]) auto
  have x: "execute_task w ev source d = (r, d'', tr') \<and> Rollback \<in> set tr' \<longrightarrow>
      db_experiments d'' = db_experiments d \<and> db_popularity d'' = db_popularity d \<and>
      Commit \<notin> set tr' \<and>
      r = (if refresh_fault_outer ev then Some DatabaseException else None)"
  proof
    assume h: "execute_task w ev source d = (r, d'', tr') \<and> Rollback \<in> set tr'"
    show "db_experiments d'' = db_experiments d \<and> db_popularity d'' = db_popularity d \<and>
      Commit \<notin> set tr' \<and>
      r = (if refresh_fault_outer ev then Some DatabaseException else None)"
    proof (cases rule: execute_task_cases[of ev w source d])
      case source_error
      then show ?thesis using h by simp
    next
      case no_experiments
      then show ?thesis using h by simp
    next
      case (process_error exps e)
      then show ?thesis using h by simp
    next
      case (persist exps md r1 d1 tr1 d2)
      from update_timescaledb_trace[OF persist(4)] h persist(5)
      have "d1 = d \<and> tr1 = [Rollback]" by (auto split: if_splits)
      then show ?thesis using persist(5,6,7) h by (auto split: if_splits)
    qed
  qed
  from a b wf we c x show ?thesis by blast
qed

theorem persist_is_one_transaction_witness:
  "update_timescaledb (no_faults\<lparr>write_fault := Some 0\<rparr>) scenario_a_groups
      (datetime 2023 1 5) empty_db = (Some OperationalError, empty_db, [Rollback]) \<and>
   update_timescaledb (no_faults\<lparr>write_fault := Some 1\<rparr>) scenario_a_groups
      (datetime 2023 1 5) empty_db = (Some OperationalError, empty_db, [Rollback]) \<and>
   snd (snd (update_timescaledb no_faults scenario_a_groups (datetime 2023 1 5) empty_db)) =
      [Commit, RefreshOk] \<and>
   {''1'', ''2''} \<subseteq> e_id ` set (db_experiments (fst (snd
      (update_timescaledb no_faults scenario_a_groups (datetime 2023 1 5) empty_db)))) \<and>
   (datetime 2023 1 1, ''EC-Earth'') \<in> popularity_key ` set (db_popularity (fst (snd
      (update_timescaledb no_faults scenario_a_groups (datetime 2023 1 5) empty_db)))) \<and>
   Rollback \<in> set (snd (snd (execute_task worker_5 (no_faults\<lparr>write_fault := Some 0\<rparr>)
      scenario_a empty_db))) \<and>
   db_experiments (fst (snd (execute_task worker_5 (no_faults\<lparr>write_fault := Some 0\<rparr>)
      scenario_a empty_db))) = db_experiments empty_db \<and>
   db_popularity (fst (snd (execute_task worker_5 (no_faults\<lparr>write_fault := Some 0\<rparr>)
      scenario_a empty_db))) = db_popularity empty_db \<and>
   fst (execute_task worker_5 (no_faults\<lparr>write_fault := Some 0\<rparr>) scenario_a empty_db) = None"
proof -
  let ?cur = "datetime 2023 1 5"
  let ?ev0 = "no_faults\<lparr>write_fault := Some 0\<rparr>"
  have wn: "write_fault no_faults = None" by (simp add: no_faults_def)
  have si: "statements_issued no_faults scenario_a_groups ?cur empty_db = Some 2"
    by (simp add: statements_issued_def cycle_defs scenario_a_groups_def)
  have w0: "update_timescaledb (no_faults\<lparr>write_fault := Some 0\<rparr>) scenario_a_groups
      ?cur empty_db = (Some OperationalError, empty_db, [Rollback])"
    using persist_is_one_transaction
      [where ev = no_faults and md = scenario_a_groups and cur = ?cur and d = empty_db
         and n = 2 and k = 0] wn si by simp
  have w1: "update_timescaledb (no_faults\<lparr>write_fault := Some 1\<rparr>) scenario_a_groups
      ?cur empty_db = (Some OperationalError, empty_db, [Rollback])"
    using persist_is_one_transaction
      [where ev = no_faults and md = scenario_a_groups and cur = ?cur and d = empty_db
         and n = 2 and k = 1] wn si by simp
  have ok: "fst (update_timescaledb no_faults scenario_a_groups ?cur empty_db) = None"
    by (simp add: cycle_defs scenario_a_groups_def)
  have dist: "distinct (member_ids scenario_a_groups)"
    by (simp add: member_ids_def scenario_a_groups_def)
  have nf: "\<not> refresh_fault_inner no_faults" by (simp add: no_faults_def)
  have u: "update_timescaledb no_faults scenario_a_groups ?cur empty_db =
        (None, fst (snd (update_timescaledb no_faults scenario_a_groups ?cur empty_db)),
         snd (snd (update_timescaledb no_faults scenario_a_groups ?cur empty_db)))"
    using ok by (metis prod.collapse)
  have c: "snd (snd (update_timescaledb no_faults scenario_a_groups ?cur empty_db)) =
      [Commit, RefreshOk] \<and>
   {''1'', ''2''} \<subseteq> e_id ` set (db_experiments (fst (snd
      (update_timescaledb no_faults scenario_a_groups ?cur empty_db)))) \<and>
   (datetime 2023 1 1, ''EC-Earth'') \<in> popularity_key ` set (db_popularity (fst (snd
      (update_timescaledb no_faults scenario_a_groups ?cur empty_db))))"
    using persist_is_one_transaction
      [where ev = no_faults and md = scenario_a_groups and cur = ?cur and d = empty_db
         and d' = "fst (snd (update_timescaledb no_faults scenario_a_groups ?cur empty_db))"
         and tr = "snd (snd (update_timescaledb no_faults scenario_a_groups ?cur empty_db))"]
      u dist nf
    by (simp add: scenario_a_groups_def str_of_int_digits)
  have rb: "Rollback \<in> set (snd (snd (execute_task worker_5 ?ev0 scenario_a empty_db)))"
    by (simp add: cycle_defs scenario_a_def worker_5_def)
  have no: "\<not> refresh_fault_outer ?ev0"
    by (simp add: no_faults_def)
  have x: "db_experiments (fst (snd (execute_task worker_5 ?ev0 scenario_a empty_db))) =
        db_experiments empty_db \<and>
   db_popularity (fst (snd (execute_task worker_5 ?ev0 scenario_a empty_db))) =
        db_popularity empty_db \<and>
   fst (execute_task worker_5 ?ev0 scenario_a empty_db) = None"
    using persist_is_one_transaction
      [where ev = ?ev0 and w = worker_5
         and source = scenario_a and d = empty_db
         and r = "fst (execute_task worker_5 ?ev0 scenario_a empty_db)"
         and d'' = "fst (snd (execute_task worker_5 ?ev0 scenario_a empty_db))"
         and tr' = "snd (snd (execute_task worker_5 ?ev0 scenario_a empty_db))"]
      rb no by simp
  from w0 w1 c rb x show ?thesis by blast
qed

section \<open>The refresh of the view\<close>











section \<open>Experiments of the store in a later cycle\<close>

lemma store_a_value:
  "store_a =
     \<lparr>db_experiments =
        [\<lparr>e_id = ''1'', e_name = ''a000'', e_model = ''EC-Earth'',
          e_created_time = datetime 2023 1 1\<rparr>,
         \<lparr>e_id = ''2'', e_name = ''a001'', e_model = ''EC-Earth'',
          e_created_time = datetime 2023 1 1\<rparr>],
      db_popularity = [bucket_a (datetime 2023 1 5)],
      db_view = [\<lparr>v_model = ''EC-Earth'', v_count = 2, v_last_updated = datetime 2023 1 5\<rparr>]\<rparr>"
  by (simp add: store_a_def cycle_defs scenario_a_def worker_5_def bucket_a_def)

text \<open>
  C2: a second cycle over an unchanged source skips every group whose members
  are all persisted, without advancing a cumulative count. The code does not:
  the ids read from the store are strings, the ids of the source integers, so
  the membership test holds for no member. After a first cycle over scenario A
  the store holds the ids \<open>1\<close> and \<open>2\<close>; in the second cycle both members of the
  group are taken as new, the cumulative count of the model is advanced from 2
  to 4 and an \<^verbatim>\<open>INSERT\<close> is executed. The rows it sends conflict with the stored
  ids and the key of the bucket is known, so the store itself stays as it was.
\<close>

theorem replay_recounts_persisted_group:
  "extract_autosubmit_experiments worker_5 no_faults scenario_a =
     Inr [source_row 1 ''a000'' ''EC-Earth'' (datetime 2023 1 1),
          source_row 2 ''a001'' ''EC-Earth'' (datetime 2023 1 1)] \<and>
   process_experiments [source_row 1 ''a000'' ''EC-Earth'' (datetime 2023 1 1),
          source_row 2 ''a001'' ''EC-Earth'' (datetime 2023 1 1)] = Inr scenario_a_groups \<and>
   e_id ` set (db_experiments store_a) = {''1'', ''2''} \<and>
   existing_experiment_ids (initial_state store_a) = {PyStr ''1'', PyStr ''2''} \<and>
   new_of (initial_state store_a) (snd (hd scenario_a_groups)) =
     [\<lparr>x_id = 1, x_name = ''a000'', x_created_time = datetime 2023 1 1\<rparr>,
      \<lparr>x_id = 2, x_name = ''a001'', x_created_time = datetime 2023 1 1\<rparr>] \<and>
   process_group no_faults (db_popularity store_a) (popularity_key ` set (db_popularity store_a))
       (datetime 2023 1 5) (hd scenario_a_groups) (initial_state store_a) =
     Inr ((initial_state store_a)
            \<lparr>existing_experiment_ids := {PyStr ''1'', PyStr ''2'', PyInt 1, PyInt 2},
             models_historical_count := [''EC-Earth'' \<mapsto> 4],
             statements := 1\<rparr>) \<and>
   execute_task worker_5 no_faults scenario_a store_a =
     (None, store_a, [Commit, RefreshOk, RefreshOk])"
proof (intro conjI)
  show "extract_autosubmit_experiments worker_5 no_faults scenario_a =
     Inr [source_row 1 ''a000'' ''EC-Earth'' (datetime 2023 1 1),
          source_row 2 ''a001'' ''EC-Earth'' (datetime 2023 1 1)]"
    by (simp add: cycle_defs scenario_a_def worker_5_def)
  show "process_experiments [source_row 1 ''a000'' ''EC-Earth'' (datetime 2023 1 1),
          source_row 2 ''a001'' ''EC-Earth'' (datetime 2023 1 1)] = Inr scenario_a_groups"
    by (simp add: cycle_defs scenario_a_groups_def)
  show "e_id ` set (db_experiments store_a) = {''1'', ''2''}"
    by (simp add: store_a_value)
  show "existing_experiment_ids (initial_state store_a) = {PyStr ''1'', PyStr ''2''}"
    by (simp add: store_a_value initial_state_def)
  show "new_of (initial_state store_a) (snd (hd scenario_a_groups)) =
     [\<lparr>x_id = 1, x_name = ''a000'', x_created_time = datetime 2023 1 1\<rparr>,
      \<lparr>x_id = 2, x_name = ''a001'', x_created_time = datetime 2023 1 1\<rparr>]"
    by (simp add: store_a_value initial_state_def new_of_def scenario_a_groups_def)
  show "process_group no_faults (db_popularity store_a)
       (popularity_key ` set (db_popularity store_a))
       (datetime 2023 1 5) (hd scenario_a_groups) (initial_state store_a) =
     Inr ((initial_state store_a)
            \<lparr>existing_experiment_ids := {PyStr ''1'', PyStr ''2'', PyInt 1, PyInt 2},
             models_historical_count := [''EC-Earth'' \<mapsto> 4],
             statements := 1\<rparr>)"
    by (simp add: store_a_value cycle_defs scenario_a_groups_def bucket_a_def insert_commute)
  show "execute_task worker_5 no_faults scenario_a store_a =
     (None, store_a, [Commit, RefreshOk, RefreshOk])"
    by (simp add: store_a_value cycle_defs scenario_a_def worker_5_def bucket_a_def)
qed

text \<open>
  C7: from an empty store, a cycle over scenario A normalises both categories to
  \<open>EC-Earth\<close> and writes the single bucket (2023-01-01, EC-Earth) with count 2 and
  total 2; a later cycle over scenario B adds the bucket (2023-01-02, EC-Earth)
  with count 1 and total 3 and leaves the first bucket as it was. The code does
  all of this but the total of the second bucket: the two persisted experiments
  are counted again before the new one, and the bucket is written with total 5
  (by the same or by another worker instance).
\<close>

theorem scenario_b_counts_persisted_members_again:
  "extract_autosubmit_experiments (init_worker n1 t1 None) no_faults scenario_a =
     Inr [source_row 1 ''a000'' ''EC-Earth'' (datetime 2023 1 1),
          source_row 2 ''a001'' ''EC-Earth'' (datetime 2023 1 1)] \<and>
   db_popularity (fst (snd (execute_task (init_worker n1 t1 None) no_faults scenario_a empty_db))) =
     [bucket_a t1] \<and>
   db_popularity (fst (snd (execute_task (init_worker n2 t2 None) no_faults scenario_b
      (fst (snd (execute_task (init_worker n1 t1 None) no_faults scenario_a empty_db))))))
   = [bucket_a t1, bucket_b t2 5] \<and>
   p_count (bucket_b t2 5) = 1 \<and> p_total_count (bucket_b t2 5) = 5"
  using scenario_a_extract scenario_a_buckets scenario_b_buckets
  by (simp add: bucket_b_def)

text \<open>
  C4: the total of the latest bucket of a model is the sum of the counts of its
  buckets. The code does not keep this once a source record is persisted: after
  scenario A, the cycle of a worker constructed a day later over scenario B
  writes the bucket of 2 January with total 5, and the counts of the two buckets
  sum to 3.
\<close>

theorem latest_total_exceeds_sum_of_counts:
  "db_popularity (run_cycles worker_6 [(no_faults, scenario_b)] store_a) =
     [bucket_a (datetime 2023 1 5), bucket_b (datetime 2023 1 6) 5] \<and>
   latest_record no_faults (db_popularity (run_cycles worker_6 [(no_faults, scenario_b)] store_a))
     ''EC-Earth'' = Some (bucket_b (datetime 2023 1 6) 5) \<and>
   p_extracted_time (bucket_a (datetime 2023 1 5)) <
     p_extracted_time (bucket_b (datetime 2023 1 6) 5) \<and>
   p_total_count (bucket_b (datetime 2023 1 6) 5) = 5 \<and>
   sum_count (db_popularity (run_cycles worker_6 [(no_faults, scenario_b)] store_a))
     ''EC-Earth'' = 3"
proof -
  have p: "db_popularity (run_cycles worker_6 [(no_faults, scenario_b)] store_a) =
     [bucket_a (datetime 2023 1 5), bucket_b (datetime 2023 1 6) 5]"
    using scenario_b_buckets[of 3600 "datetime 2023 1 6" 3600 "datetime 2023 1 5"]
    by (simp add: store_a_def worker_5_def worker_6_def)
  show ?thesis
    unfolding p
    by (simp add: latest_record_def no_faults_def stable_desc_def bucket_a_def bucket_b_def
          sum_count_def datetime_def)
qed

lemma insert_experiments_known:
  "e_id ` set vs \<subseteq> e_id ` set tbl \<Longrightarrow> insert_experiments vs tbl = Inr tbl"
  by (induction vs) auto

lemma ieb_known:
  "insert_experiment_batches ev m bs st = Inr st' \<Longrightarrow>
   \<forall>en \<in> set (concat bs). str_of_int (x_id en) \<in> e_id ` set (session_experiments st) \<Longrightarrow>
   session_experiments st' = session_experiments st"
proof (induction bs arbitrary: st)
  case Nil
  then show ?case by simp
next
  case (Cons b bs)
  have "e_id ` set (map (entry_row m) b) \<subseteq> e_id ` set (session_experiments st)"
    using Cons.prems(2) by (auto simp: entry_row_def)
  then have t: "insert_experiments (map (entry_row m) b) (session_experiments st) =
             Inr (session_experiments st)"
    by (rule insert_experiments_known)
  let ?st1 = "st\<lparr>session_experiments := session_experiments st,
                 statements := statements st + 1,
                 existing_experiment_ids :=
                   existing_experiment_ids st \<union> PyInt ` x_id ` set b\<rparr>"
  from Cons.prems(1) t have r: "insert_experiment_batches ev m bs ?st1 = Inr st'"
    by (simp split: if_splits)
  have "\<forall>en \<in> set (concat bs). str_of_int (x_id en) \<in> e_id ` set (session_experiments ?st1)"
    using Cons.prems(2) by simp
  from Cons.IH[OF r this] show ?case by simp
qed

lemma new_of_cong:
  "{i. PyInt i \<in> existing_experiment_ids s1} = {i. PyInt i \<in> existing_experiment_ids s2} \<Longrightarrow>
   new_of s1 info = new_of s2 info"
  unfolding new_of_def by (intro filter_cong) auto

lemma groups_loop_replay:
  "groups_loop ev1 P1 K1 cur1 md s1 = Inr s1' \<Longrightarrow>
   {i. PyInt i \<in> existing_experiment_ids s1} = {i. PyInt i \<in> existing_experiment_ids s2} \<Longrightarrow>
   \<forall>item \<in> set md. \<forall>en \<in> set (g_experiments (snd item)).
      str_of_int (x_id en) \<in> e_id ` set (session_experiments s2) \<Longrightarrow>
   K1 \<union> popularity_key ` set (new_model_popularity_entries s1') \<subseteq> K2 \<Longrightarrow>
   groups_loop ev2 P2 K2 cur2 md s2 = Inr s2' \<Longrightarrow>
   session_experiments s2' = session_experiments s2 \<and>
   new_model_popularity_entries s2' = new_model_popularity_entries s2"
proof (induction md arbitrary: s1 s2)
  case Nil
  then show ?case by simp
next
  case (Cons item md)
  obtain dk m info where item: "item = ((dk, m), info)" by (metis prod.exhaust)
  from Cons.prems(1) obtain t1 where
    g1: "process_group ev1 P1 K1 cur1 ((dk, m), info) s1 = Inr t1"
    and r1: "groups_loop ev1 P1 K1 cur1 md t1 = Inr s1'"
    by (auto simp: item split: sum.splits)
  from Cons.prems(5) obtain t2 where
    g2: "process_group ev2 P2 K2 cur2 ((dk, m), info) s2 = Inr t2"
    and r2: "groups_loop ev2 P2 K2 cur2 md t2 = Inr s2'"
    by (auto simp: item split: sum.splits)
  note f1 = process_group_fields[OF g1]
  note f2 = process_group_fields[OF g2]
  have n: "new_of s1 info = new_of s2 info" by (rule new_of_cong[OF Cons.prems(2)])
  have same: "session_experiments t2 = session_experiments s2 \<and>
              new_model_popularity_entries t2 = new_model_popularity_entries s2"
  proof (cases "new_of s2 info = []")
    case True
    then show ?thesis using f2(3) by simp
  next
    case False
    from groups_loop_entries[OF r1] obtain es where
      es: "new_model_popularity_entries s1' = new_model_popularity_entries t1 @ es" by blast
    have k: "(dk, m) \<in> K2"
    proof (cases "(dk, m) \<in> K1")
      case True
      then show ?thesis using Cons.prems(4) by blast
    next
      case nk: False
      from f1(4) False n nk have
        "new_model_popularity_entries t1 =
           new_model_popularity_entries s1 @
           [entry_of cur1 dk m (int (length (new_of s1 info)))
              (prior_of ev1 P1 s1 m + int (length (new_of s1 info)))]"
        by simp
      then have "(dk, m) \<in> popularity_key ` set (new_model_popularity_entries s1')"
        unfolding es by (simp add: popularity_key_def entry_of_def)
      then show ?thesis using Cons.prems(4) by blast
    qed
    have e: "new_model_popularity_entries t2 = new_model_popularity_entries s2"
      using f2(4)[OF False] k by simp
    note b = process_group_new[OF g2 False]
    have cb: "concat (batches batch_size (new_of s2 info)) = new_of s2 info"
      by (rule concat_batches) (simp add: batch_size_def)
    have "\<forall>en \<in> set (new_of s2 info).
            str_of_int (x_id en) \<in> e_id ` set (session_experiments s2)"
      using Cons.prems(3) by (auto simp: item new_of_def)
    then have "session_experiments t2 = session_experiments s2"
      using ieb_known[OF b] unfolding cb by simp
    then show ?thesis using e by simp
  qed
  have ids: "{i. PyInt i \<in> existing_experiment_ids t1} = {i. PyInt i \<in> existing_experiment_ids t2}"
    unfolding f1(1) f2(1) using Cons.prems(2) by auto
  have cov: "\<forall>item \<in> set md. \<forall>en \<in> set (g_experiments (snd item)).
      str_of_int (x_id en) \<in> e_id ` set (session_experiments t2)"
    using Cons.prems(3) same by simp
  from Cons.IH[OF r1 ids cov Cons.prems(4) r2] same show ?case by simp
qed

lemma update_timescaledb_replay:
  assumes u1: "update_timescaledb ev1 md cur1 d = (r1, d1, tr1)" and ok: "Rollback \<notin> set tr1"
    and same: "db_experiments dA = db_experiments d1" "db_popularity dA = db_popularity d1"
    and u2: "update_timescaledb ev2 md cur2 dA = (r2, d2, tr2)"
  shows "db_experiments d2 = db_experiments dA \<and> db_popularity d2 = db_popularity dA"
proof (cases rule: update_timescaledb_cases[of ev2 md cur2 dA])
  case (rollback e)
  then show ?thesis using u2 by simp
next
  case second: (commit s2' pop2 n2 d2')
  have d2': "d2' = d2" using second(4) u2 by simp
  note cov = update_timescaledb_covers[OF u1 ok]
  show ?thesis
  proof (cases rule: update_timescaledb_cases[of ev1 md cur1 d])
    case (rollback e)
    then show ?thesis using u1 ok by simp
  next
    case first: (commit s1' pop1 n1 d1')
    have d1': "d1' = d1" using first(4) u1 by simp
    have p1: "pop1 = insert_popularity (new_model_popularity_entries s1') (db_popularity d)"
      using insert_popularity_batches_concat[OF first(2)]
      by (simp add: concat_batches batch_size_def)
    have K: "popularity_key ` set (db_popularity d) \<union>
             popularity_key ` set (new_model_popularity_entries s1') \<subseteq>
             popularity_key ` set (db_popularity dA)"
      unfolding same(2) using first(6) d1' p1 by (simp add: insert_popularity_keys)
    have ids: "{i. PyInt i \<in> existing_experiment_ids (initial_state d)} =
               {i. PyInt i \<in> existing_experiment_ids (initial_state dA)}"
      by (auto simp: initial_state_def)
    have c: "\<forall>item \<in> set md. \<forall>en \<in> set (g_experiments (snd item)).
      str_of_int (x_id en) \<in> e_id ` set (session_experiments (initial_state dA))"
      using cov same(1) by (simp add: initial_state_def)
    from groups_loop_replay[OF first(1) ids c K second(1)] have
      s: "session_experiments s2' = db_experiments dA" "new_model_popularity_entries s2' = []"
      by (simp_all add: initial_state_def)
    have "pop2 = db_popularity dA" using second(2) s(2) by simp
    then show ?thesis using second(5,6) d2' s(1) by simp
  qed
qed

text \<open>
  What does hold of a replay: when a cycle has read the source and its
  transaction was not rolled back, a second cycle over the same source (whatever
  fails or not in it) leaves the tables of experiments and popularity buckets as
  they are.
\<close>

theorem replay_leaves_tables_unchanged:
  assumes c1: "execute_task w ev1 source d = (r1, d1, tr1)"
    and ok: "\<not> source_fault ev1" "Rollback \<notin> set tr1"
    and c2: "execute_task w ev2 source d1 = (r2, d2, tr2)"
  shows "db_experiments d2 = db_experiments d1 \<and> db_popularity d2 = db_popularity d1"
proof (cases rule: execute_task_cases[of ev2 w source d1])
  case source_error
  then show ?thesis using c2 by simp
next
  case no_experiments
  then show ?thesis using c2 by simp
next
  case (process_error exps e)
  then show ?thesis using c2 by simp
next
  case second: (persist exps md u2 e2 utr2 f2)
  have same: "extract_autosubmit_experiments w ev1 source = Inr exps"
    using extract_env[OF ok(1) second(1)] second(2) by simp
  have "db_experiments e2 = db_experiments d1 \<and> db_popularity e2 = db_popularity d1"
  proof (cases rule: execute_task_cases[of ev1 w source d])
    case source_error
    then show ?thesis using ok by simp
  next
    case no_experiments
    then have md: "md = []" and d1: "d1 = d"
      using same second(3) c1 by (simp_all add: process_experiments_def)
    show ?thesis
    proof (cases rule: update_timescaledb_cases[of ev2 md "current_time w" d1])
      case (rollback e)
      then show ?thesis using second(4) by simp
    next
      case (commit st pop n d')
      then show ?thesis using second(4) md by (auto simp: initial_state_def)
    qed
  next
    case (process_error exps' e)
    then show ?thesis using same second(3) by simp
  next
    case first: (persist exps' md' u1 e1 utr1 f1)
    have md: "md' = md" using first(2,3) same second(3) by simp
    have f1: "f1 = d1" and tr: "tr1 = utr1 @ [if refresh_fault_outer ev1 then RefreshFailed else RefreshOk]"
      using first(5) c1 by simp_all
    have nr: "Rollback \<notin> set utr1" using tr ok(2) by auto
    show ?thesis
      using update_timescaledb_replay[OF first(4)[unfolded md] nr _ _ second(4)]
        first(6,7) f1 by simp
  qed
  then show ?thesis using second(5,6,7) c2 by simp
qed

theorem replay_leaves_tables_unchanged_witness:
  "\<not> source_fault no_faults \<and>
   Rollback \<notin> set (snd (snd (execute_task worker_5 no_faults scenario_a empty_db))) \<and>
   db_experiments (fst (snd (execute_task worker_5 no_faults scenario_a
      (fst (snd (execute_task worker_5 no_faults scenario_a empty_db)))))) =
   db_experiments (fst (snd (execute_task worker_5 no_faults scenario_a empty_db))) \<and>
   db_popularity (fst (snd (execute_task worker_5 no_faults scenario_a
      (fst (snd (execute_task worker_5 no_faults scenario_a empty_db)))))) =
   db_popularity (fst (snd (execute_task worker_5 no_faults scenario_a empty_db))) \<and>
   db_popularity (fst (snd (execute_task worker_5 no_faults scenario_a empty_db))) \<noteq> []"
proof -
  have nf: "\<not> source_fault no_faults" by (simp add: no_faults_def)
  have tr: "snd (snd (execute_task worker_5 no_faults scenario_a empty_db)) =
            [Commit, RefreshOk, RefreshOk]"
    by (simp add: cycle_defs scenario_a_def worker_5_def)
  then have nr: "Rollback \<notin> set (snd (snd (execute_task worker_5 no_faults scenario_a empty_db)))"
    by simp
  have ne: "db_popularity (fst (snd (execute_task worker_5 no_faults scenario_a empty_db))) \<noteq> []"
    by (simp add: cycle_defs scenario_a_def worker_5_def)
  have tp: "\<And>x :: error option \<times> db \<times> event list. x = (fst x, fst (snd x), snd (snd x))"
    by simp
  show ?thesis
    using replay_leaves_tables_unchanged [OF tp nf nr tp] nf nr ne by blast
qed

section \<open>Cumulative counts\<close>

lemma process_loop_distinct:
  "process_loop exps md0 = Inr md \<Longrightarrow> distinct (map fst md0) \<Longrightarrow> distinct (map fst md)"
proof (induction exps arbitrary: md0)
  case Nil
  then show ?case by simp
next
  case (Cons exp rest)
  from Cons.prems(1) obtain cd where cd: "credated exp = Some cd"
    by (auto split: option.splits)
  define key where "key = (replace_midnight cd, model exp)"
  define md1 where "md1 = (if key \<notin> fst ` set md0
                     then md0 @ [(key, \<lparr>g_model = model exp, g_time = replace_midnight cd,
                                  g_count = 0, g_experiments = []\<rparr>)]
                     else md0)"
  define md3 where "md3 = AList.map_entry key (\<lambda>g. g\<lparr>g_count := g_count g + 1\<rparr>)
     (AList.map_entry key
        (\<lambda>g. g\<lparr>g_experiments := g_experiments g @
            [\<lparr>x_id = exp_id exp, x_name = name exp, x_created_time = cd\<rparr>]\<rparr>) md1)"
  have rec: "process_loop rest md3 = Inr md"
    using Cons.prems(1) cd
    by (cases "(replace_midnight cd, model exp) \<in> fst ` set md0")
       (simp_all add: Let_def md3_def md1_def key_def)
  have "distinct (map fst md1)" using Cons.prems(2) by (auto simp: md1_def)
  then have "distinct (map fst md3)"
    unfolding md3_def by (intro AList.distinct_map_entry)
  from Cons.IH[OF rec this] show ?case .
qed

lemma process_experiments_distinct:
  "process_experiments exps = Inr md \<Longrightarrow> distinct (map fst md)"
  unfolding process_experiments_def by (erule process_loop_distinct) simp

lemma groups_loop_distinct:
  "groups_loop ev P keys cur md st = Inr st' \<Longrightarrow> distinct (map fst md) \<Longrightarrow>
   distinct (map popularity_key (new_model_popularity_entries st)) \<Longrightarrow>
   \<forall>r \<in> set (new_model_popularity_entries st). popularity_key r \<notin> fst ` set md \<Longrightarrow>
   distinct (map popularity_key (new_model_popularity_entries st'))"
proof (induction md arbitrary: st)
  case Nil
  then show ?case by simp
next
  case (Cons item md)
  obtain dk m info where item: "item = ((dk, m), info)" by (metis prod.exhaust)
  from Cons.prems(1) obtain st1 where
    g: "process_group ev P keys cur ((dk, m), info) st = Inr st1"
    and r: "groups_loop ev P keys cur md st1 = Inr st'"
    by (auto simp: item split: sum.splits)
  from process_group_entries[OF g] obtain es where
    es: "new_model_popularity_entries st1 = new_model_popularity_entries st @ es"
        "\<forall>r \<in> set es. popularity_key r = (dk, m)" "length es \<le> 1" by blast
  have des: "distinct (map popularity_key es)"
    using es(3) by (cases es) auto
  have nk: "(dk, m) \<notin> popularity_key ` set (new_model_popularity_entries st)"
    using Cons.prems(4) by (force simp: item)
  have d1: "distinct (map popularity_key (new_model_popularity_entries st1))"
    unfolding es(1) using Cons.prems(3) des es(2) nk by auto
  have nm: "(dk, m) \<notin> fst ` set md" using Cons.prems(2) by (simp add: item)
  have "\<forall>r \<in> set (new_model_popularity_entries st1). popularity_key r \<notin> fst ` set md"
  proof
    fix r assume "r \<in> set (new_model_popularity_entries st1)"
    then consider "r \<in> set (new_model_popularity_entries st)" | "r \<in> set es"
      unfolding es(1) by auto
    then show "popularity_key r \<notin> fst ` set md"
    proof cases
      case 1
      then show ?thesis using Cons.prems(4) by simp
    next
      case 2
      then have "popularity_key r = (dk, m)" using es(2) by blast
      then show ?thesis using nm by simp
    qed
  qed
  from Cons.IH[OF r _ d1 this] Cons.prems(2) show ?case by simp
qed

lemma process_loop_keys:
  "process_loop exps md0 = Inr md \<Longrightarrow>
   \<forall>key \<in> fst ` set md. key \<in> fst ` set md0 \<or>
      (\<exists>x \<in> set exps. \<exists>cd. credated x = Some cd \<and> key = (replace_midnight cd, model x))"
proof (induction exps arbitrary: md0)
  case Nil
  then show ?case by simp
next
  case (Cons exp rest)
  from Cons.prems(1) obtain cd where cd: "credated exp = Some cd"
    by (auto split: option.splits)
  define key where "key = (replace_midnight cd, model exp)"
  define md1 where "md1 = (if key \<notin> fst ` set md0
                     then md0 @ [(key, \<lparr>g_model = model exp, g_time = replace_midnight cd,
                                  g_count = 0, g_experiments = []\<rparr>)]
                     else md0)"
  define md3 where "md3 = AList.map_entry key (\<lambda>g. g\<lparr>g_count := g_count g + 1\<rparr>)
     (AList.map_entry key
        (\<lambda>g. g\<lparr>g_experiments := g_experiments g @
            [\<lparr>x_id = exp_id exp, x_name = name exp, x_created_time = cd\<rparr>]\<rparr>) md1)"
  have rec: "process_loop rest md3 = Inr md"
    using Cons.prems(1) cd
    by (cases "(replace_midnight cd, model exp) \<in> fst ` set md0")
       (simp_all add: Let_def md3_def md1_def key_def)
  have "fst ` set md3 = fst ` set md1"
    unfolding md3_def by (simp add: AList.dom_map_entry)
  moreover have "fst ` set md1 \<subseteq> fst ` set md0 \<union> {key}" by (auto simp: md1_def)
  ultimately have k3: "fst ` set md3 \<subseteq> fst ` set md0 \<union> {key}" by simp
  show ?case
  proof
    fix k
    assume "k \<in> fst ` set md"
    with Cons.IH[OF rec] consider "k \<in> fst ` set md3"
      | "\<exists>x \<in> set rest. \<exists>cd. credated x = Some cd \<and> k = (replace_midnight cd, model x)"
      by blast
    then show "k \<in> fst ` set md0 \<or>
      (\<exists>x \<in> set (exp # rest). \<exists>cd. credated x = Some cd \<and> k = (replace_midnight cd, model x))"
    proof cases
      case 1
      then consider "k \<in> fst ` set md0" | "k = key" using k3 by blast
      then show ?thesis
      proof cases
        case 1
        then show ?thesis by blast
      next
        case 2
        then show ?thesis
          by (intro disjI2 bexI[of _ exp] exI[of _ cd]) (simp_all add: cd key_def)
      qed
    next
      case 2
      then obtain x cd' where "x \<in> set rest" "credated x = Some cd'"
        "k = (replace_midnight cd', model x)" by blast
      then show ?thesis
        by (intro disjI2 bexI[of _ x] exI[of _ cd']) simp_all
    qed
  qed
qed

lemma process_experiments_keys:
  assumes "process_experiments exps = Inr md" and "item \<in> set md"
  shows "\<exists>x \<in> set exps. \<exists>cd. credated x = Some cd \<and> fst item = (replace_midnight cd, model x)"
proof -
  have "fst item \<in> fst ` set md" using assms(2) by (rule imageI)
  from bspec[OF process_loop_keys[OF assms(1)[unfolded process_experiments_def]] this]
  show ?thesis by simp
qed

lemma process_group_conservation:
  assumes g: "process_group ev P keys cur ((dk, m'), info) st = Inr st1"
    and H: "m' = m \<longrightarrow> (dk, m') \<notin> keys"
    and s: "prior_of ev P st m =
            p0 + sum_list (map p_count (filter (\<lambda>r. p_model r = m) (new_model_popularity_entries st)))"
    and l: "filter (\<lambda>r. p_model r = m) (new_model_popularity_entries st) \<noteq> [] \<longrightarrow>
            p_total_count (last (filter (\<lambda>r. p_model r = m) (new_model_popularity_entries st))) =
            prior_of ev P st m"
  shows "prior_of ev P st1 m =
            p0 + sum_list (map p_count (filter (\<lambda>r. p_model r = m) (new_model_popularity_entries st1)))"
    and "filter (\<lambda>r. p_model r = m) (new_model_popularity_entries st1) \<noteq> [] \<longrightarrow>
            p_total_count (last (filter (\<lambda>r. p_model r = m) (new_model_popularity_entries st1))) =
            prior_of ev P st1 m"
proof -
  note f = process_group_fields[OF g]
  have "prior_of ev P st1 m =
            p0 + sum_list (map p_count (filter (\<lambda>r. p_model r = m) (new_model_popularity_entries st1))) \<and>
        (filter (\<lambda>r. p_model r = m) (new_model_popularity_entries st1) \<noteq> [] \<longrightarrow>
            p_total_count (last (filter (\<lambda>r. p_model r = m) (new_model_popularity_entries st1))) =
            prior_of ev P st1 m)"
  proof (cases "new_of st info = []")
    case True
    then have "st1 = st" using f(3) by simp
    then show ?thesis using s l by simp
  next
    case False
    let ?n = "int (length (new_of st info))"
    let ?e = "entry_of cur dk m' ?n (prior_of ev P st m' + ?n)"
    from f(4)[OF False] have
      mh: "models_historical_count st1 =
             (models_historical_count st)(m' \<mapsto> prior_of ev P st m' + ?n)"
      and ne: "new_model_popularity_entries st1 =
             new_model_popularity_entries st @ (if (dk, m') \<notin> keys then [?e] else [])"
      by blast+
    show ?thesis
    proof (cases "m' = m")
      case other: False
      have p: "prior_of ev P st1 m = prior_of ev P st m"
        using other by (simp add: prior_of_def mh)
      have "filter (\<lambda>r. p_model r = m) (new_model_popularity_entries st1) =
            filter (\<lambda>r. p_model r = m) (new_model_popularity_entries st)"
        using other by (simp add: ne entry_of_def)
      then show ?thesis using p s l by simp
    next
      case same: True
      have nk: "(dk, m') \<notin> keys" using H same by blast
      have p: "prior_of ev P st1 m = prior_of ev P st m + ?n"
        using same by (simp add: prior_of_def mh)
      have fl: "filter (\<lambda>r. p_model r = m) (new_model_popularity_entries st1) =
            filter (\<lambda>r. p_model r = m) (new_model_popularity_entries st) @ [?e]"
        using same nk by (simp add: ne entry_of_def)
      have "p_count ?e = ?n" "p_total_count ?e = prior_of ev P st m + ?n"
        using same by (simp_all add: entry_of_def)
      then show ?thesis unfolding fl p using s by simp
    qed
  qed
  then show "prior_of ev P st1 m =
            p0 + sum_list (map p_count (filter (\<lambda>r. p_model r = m) (new_model_popularity_entries st1)))"
    and "filter (\<lambda>r. p_model r = m) (new_model_popularity_entries st1) \<noteq> [] \<longrightarrow>
            p_total_count (last (filter (\<lambda>r. p_model r = m) (new_model_popularity_entries st1))) =
            prior_of ev P st1 m"
    by blast+
qed

lemma groups_loop_conservation:
  assumes "groups_loop ev P keys cur md st = Inr st'"
    and "\<forall>item \<in> set md. snd (fst item) = m \<longrightarrow> fst item \<notin> keys"
    and "prior_of ev P st m =
            p0 + sum_list (map p_count (filter (\<lambda>r. p_model r = m) (new_model_popularity_entries st)))"
    and "filter (\<lambda>r. p_model r = m) (new_model_popularity_entries st) \<noteq> [] \<longrightarrow>
            p_total_count (last (filter (\<lambda>r. p_model r = m) (new_model_popularity_entries st))) =
            prior_of ev P st m"
  shows "prior_of ev P st' m =
            p0 + sum_list (map p_count (filter (\<lambda>r. p_model r = m) (new_model_popularity_entries st'))) \<and>
         (filter (\<lambda>r. p_model r = m) (new_model_popularity_entries st') \<noteq> [] \<longrightarrow>
            p_total_count (last (filter (\<lambda>r. p_model r = m) (new_model_popularity_entries st'))) =
            prior_of ev P st' m)"
  using assms
proof (induction md arbitrary: st)
  case Nil
  then show ?case by simp
next
  case (Cons item md)
  obtain dk m' info where item: "item = ((dk, m'), info)" by (metis prod.exhaust)
  from Cons.prems(1) obtain st1 where
    g: "process_group ev P keys cur ((dk, m'), info) st = Inr st1"
    and r: "groups_loop ev P keys cur md st1 = Inr st'"
    by (auto simp: item split: sum.splits)
  have H1: "m' = m \<longrightarrow> (dk, m') \<notin> keys"
    using Cons.prems(2) by (simp add: item)
  note c = process_group_conservation[OF g H1 Cons.prems(3) Cons.prems(4)]
  have H2: "\<forall>item \<in> set md. snd (fst item) = m \<longrightarrow> fst item \<notin> keys"
    using Cons.prems(2) by simp
  from Cons.IH[OF r H2 c] show ?case .
qed

lemma sum_count_append:
  "sum_count (P @ Q) m = sum_count P m + sum_list (map p_count (filter (\<lambda>r. p_model r = m) Q))"
  by (simp add: sum_count_def)

text \<open>
  What does hold of conservation, cycle by cycle. Take a cycle that commits and a
  model \<open>m\<close> such that the cumulative count the cycle reads for \<open>m\<close> equals
  the sum of the counts of the persisted buckets of \<open>m\<close>, and such that no
  source record of \<open>m\<close> falls into a bucket that is persisted already. Then the
  table is only extended, and either the cycle writes no bucket of \<open>m\<close> and
  the sum of the counts of \<open>m\<close> is unchanged, or the last bucket it writes for
  \<open>m\<close> carries as total the sum of the counts of all persisted buckets of \<open>m\<close>
  (also when the cycle writes several of them).
\<close>

theorem conservation_on_new_buckets:
  assumes c: "execute_task w ev source d = (r, d', tr)" and ok: "Commit \<in> set tr"
    and prior: "initial_historical_count ev (db_popularity d) m = sum_count (db_popularity d) m"
    and fresh:
      "\<forall>s \<in> set source.
         model s \<notin> set (invalid_model_values w) \<and> clean_model_name (model s) = m \<longrightarrow>
         (\<forall>cd. credated s = Some cd \<longrightarrow>
               (replace_midnight cd, m) \<notin> popularity_key ` set (db_popularity d))"
  shows "take (length (db_popularity d)) (db_popularity d') = db_popularity d \<and>
         (if written_for (db_popularity d) (db_popularity d') m = []
          then sum_count (db_popularity d') m = sum_count (db_popularity d) m
          else p_total_count (last (written_for (db_popularity d) (db_popularity d') m)) =
               sum_count (db_popularity d') m)"
proof (cases rule: execute_task_cases[of ev w source d])
  case source_error
  then show ?thesis using c ok by simp
next
  case no_experiments
  then show ?thesis using c ok by simp
next
  case (process_error exps e)
  then show ?thesis using c ok by simp
next
  case (persist exps md r1 d1 tr1 d2)
  have d2: "d2 = d'" and tr: "tr = tr1 @ [if refresh_fault_outer ev then RefreshFailed else RefreshOk]"
    using persist(5) c by simp_all
  let ?P = "db_popularity d"
  let ?keys = "popularity_key ` set ?P"
  show ?thesis
  proof (cases rule: update_timescaledb_cases[of ev md "current_time w" d])
    case (rollback e)
    then have "tr1 = [Rollback]" using persist(4) by simp
    then show ?thesis using tr ok by (simp split: if_splits)
  next
    case (commit st pop n d1')
    have d1: "d1' = d1" using commit(4) persist(4) by simp
    let ?new = "new_model_popularity_entries st"
    have H: "\<forall>item \<in> set md. snd (fst item) = m \<longrightarrow> fst item \<notin> ?keys"
    proof (intro ballI impI)
      fix item
      assume item: "item \<in> set md" and k: "snd (fst item) = m"
      from process_experiments_keys[OF persist(3) item] obtain ex cd where
        ex: "ex \<in> set exps" "credated ex = Some cd"
            "fst item = (replace_midnight cd, model ex)" by blast
      from extract_source[OF persist(2) ex(1)] obtain s where
        s: "s \<in> set source" "model s \<notin> set (invalid_model_values w)" "exp_id ex = exp_id s"
           "credated ex = credated s" "model ex = clean_model_name (model s)" by blast
      have mm: "clean_model_name (model s) = m" using k ex(3) s(5) by simp
      have "credated s = Some cd" using ex(2) s(4) by simp
      with fresh s(1,2) mm have "(replace_midnight cd, m) \<notin> ?keys" by blast
      then show "fst item \<notin> ?keys" using ex(3) s(5) mm by simp
    qed
    have p0: "prior_of ev ?P (initial_state d) m =
        sum_count ?P m + sum_list (map p_count (filter (\<lambda>r. p_model r = m)
           (new_model_popularity_entries (initial_state d))))"
      using prior by (simp add: prior_of_def initial_state_def)
    have l0: "filter (\<lambda>r. p_model r = m) (new_model_popularity_entries (initial_state d)) \<noteq> [] \<longrightarrow>
            p_total_count (last (filter (\<lambda>r. p_model r = m)
               (new_model_popularity_entries (initial_state d)))) =
            prior_of ev ?P (initial_state d) m"
      by (simp add: initial_state_def)
    from groups_loop_conservation[OF commit(1) H p0 l0] have
      cons: "prior_of ev ?P st m =
               sum_count ?P m + sum_list (map p_count (filter (\<lambda>r. p_model r = m) ?new))"
      and lst: "filter (\<lambda>r. p_model r = m) ?new \<noteq> [] \<longrightarrow>
            p_total_count (last (filter (\<lambda>r. p_model r = m) ?new)) = prior_of ev ?P st m"
      by blast+
    have dmd: "distinct (map fst md)" by (rule process_experiments_distinct[OF persist(3)])
    have dn: "distinct (map popularity_key ?new)"
      by (rule groups_loop_distinct[OF commit(1) dmd]) (simp_all add: initial_state_def)
    from groups_loop_entries[OF commit(1)] have
      "\<forall>r \<in> set ?new. popularity_key r \<notin> ?keys"
      by (auto simp: initial_state_def)
    then have dj: "popularity_key ` set ?new \<inter> ?keys = {}" by blast
    have cb: "concat (batches batch_size ?new) = ?new"
      by (rule concat_batches) (simp add: batch_size_def)
    have pop: "pop = ?P @ ?new"
      using insert_popularity_batches_exact[OF commit(2)] dn dj unfolding cb by simp
    have P': "db_popularity d' = ?P @ ?new"
      using pop commit(6) d1 persist(7) d2 by simp
    have w: "written_for ?P (db_popularity d') m = filter (\<lambda>r. p_model r = m) ?new"
      by (simp add: written_for_def P')
    have sc: "sum_count (db_popularity d') m = prior_of ev ?P st m"
      unfolding P' sum_count_append cons ..
    show ?thesis
    proof (cases "filter (\<lambda>r. p_model r = m) ?new = []")
      case True
      then show ?thesis using w P' by (simp add: sum_count_append)
    next
      case False
      then show ?thesis using w lst sc P' by simp
    qed
  qed
qed

theorem conservation_on_new_buckets_witness:
  "written_for (db_popularity store_a)
     (db_popularity (fst (snd (execute_task worker_6 no_faults scenario_b_added store_a))))
     ''EC-Earth'' = [bucket_b (datetime 2023 1 6) 3] \<and>
   p_total_count (last (written_for (db_popularity store_a)
     (db_popularity (fst (snd (execute_task worker_6 no_faults scenario_b_added store_a))))
     ''EC-Earth'')) =
   sum_count
     (db_popularity (fst (snd (execute_task worker_6 no_faults scenario_b_added store_a))))
     ''EC-Earth''"
proof -
  let ?x = "execute_task worker_6 no_faults scenario_b_added store_a"
  have tp: "?x = (fst ?x, fst (snd ?x), snd (snd ?x))" by simp
  have ok: "Commit \<in> set (snd (snd ?x))"
    unfolding store_a_value
    by (simp add: cycle_defs scenario_b_added_def worker_6_def bucket_a_def)
  have prior: "initial_historical_count no_faults (db_popularity store_a) ''EC-Earth'' =
               sum_count (db_popularity store_a) ''EC-Earth''"
    unfolding store_a_value
    by (simp add: initial_historical_count_def latest_record_def no_faults_def stable_desc_def
        sum_count_def bucket_a_def)
  have fresh: "\<forall>s \<in> set scenario_b_added.
         model s \<notin> set (invalid_model_values worker_6) \<and>
         clean_model_name (model s) = ''EC-Earth'' \<longrightarrow>
         (\<forall>cd. credated s = Some cd \<longrightarrow>
               (replace_midnight cd, ''EC-Earth'') \<notin> popularity_key ` set (db_popularity store_a))"
    unfolding store_a_value
    by (simp add: scenario_b_added_def source_row_def popularity_key_def bucket_a_def
        replace_midnight_def datetime_def)
  have w: "written_for (db_popularity store_a) (db_popularity (fst (snd ?x))) ''EC-Earth'' =
           [bucket_b (datetime 2023 1 6) 3]"
    unfolding store_a_value
    by (simp add: written_for_def cycle_defs scenario_b_added_def worker_6_def bucket_a_def
        bucket_b_def)
  from conservation_on_new_buckets[OF tp ok prior fresh] w show ?thesis by simp
qed

section \<open>The worker loop and shutdown\<close>





lemma finished_steps:
  "t_pc (if t_pc t = NotStarted then start_task t else t) = Finished \<longleftrightarrow> t_pc t = Finished"
  "t_pc (if t_pc t = InCycle then cycle_ends r t else t) = Finished \<longleftrightarrow> t_pc t = Finished"
  "t_pc t = Finished \<Longrightarrow> t_pc (case t_pc t of Sleeping k \<Rightarrow> loop_test t | _ \<Rightarrow> t) = Finished"
  by (auto simp: start_task_def loop_test_def cycle_ends_def)









section \<open>Order of the cumulative counts\<close>

lemma stable_desc_is_descending:
  "set (stable_desc rows) = set rows \<and> length (stable_desc rows) = length rows \<and>
   sorted (map p_extracted_time (rev (stable_desc rows)))"
  by (simp add: stable_desc_def)

text \<open>
  C8: the cumulative counts of a model do not decrease along the extraction
  times. The code does not keep this: all buckets written by one cycle carry one
  extraction time, and the query for the latest record orders by that time
  alone. A first synchronisation writes three buckets of one model (totals 1, 2
  and 3) while a fourth experiment still has the placeholder \<open>NA\<close> as its model.
  Once that experiment has its model, the cycle of a later worker meets its group
  first, reads, with the rows in stored order, the bucket with total 1, and
  writes the new bucket with total 2.
\<close>

theorem cumulative_count_not_monotone:
  "db_popularity (run_cycles worker_5 [(no_faults, history_before)] empty_db) =
     [entry_of (datetime 2023 1 5) (datetime 2023 1 1) ''EC-Earth'' 1 1,
      entry_of (datetime 2023 1 5) (datetime 2023 1 2) ''EC-Earth'' 1 2,
      entry_of (datetime 2023 1 5) (datetime 2023 1 3) ''EC-Earth'' 1 3] \<and>
   db_popularity (run_cycles worker_6 [(no_faults, history_after)]
      (run_cycles worker_5 [(no_faults, history_before)] empty_db)) =
     [entry_of (datetime 2023 1 5) (datetime 2023 1 1) ''EC-Earth'' 1 1,
      entry_of (datetime 2023 1 5) (datetime 2023 1 2) ''EC-Earth'' 1 2,
      entry_of (datetime 2023 1 5) (datetime 2023 1 3) ''EC-Earth'' 1 3,
      entry_of (datetime 2023 1 6) (datetime 2022 12 31) ''EC-Earth'' 1 2] \<and>
   p_extracted_time (entry_of (datetime 2023 1 5) (datetime 2023 1 3) ''EC-Earth'' 1 3) <
   p_extracted_time (entry_of (datetime 2023 1 6) (datetime 2022 12 31) ''EC-Earth'' 1 2) \<and>
   p_total_count (entry_of (datetime 2023 1 6) (datetime 2022 12 31) ''EC-Earth'' 1 2) <
   p_total_count (entry_of (datetime 2023 1 5) (datetime 2023 1 3) ''EC-Earth'' 1 3)"
  by (simp add: cycle_defs history_after_def history_before_def worker_5_def worker_6_def
      entry_of_def)

lemma process_group_increasing:
  assumes g: "process_group ev P keys cur ((dk, m'), info) st = Inr st1"
    and lo: "p0 \<le> prior_of ev P st m"
    and s: "sorted_wrt (<) (map p_total_count
              (filter (\<lambda>r. p_model r = m) (new_model_popularity_entries st)))"
    and b: "\<forall>r \<in> set (new_model_popularity_entries st).
              p_model r = m \<longrightarrow> p0 < p_total_count r \<and> p_total_count r \<le> prior_of ev P st m"
  shows "p0 \<le> prior_of ev P st1 m \<and>
         sorted_wrt (<) (map p_total_count
              (filter (\<lambda>r. p_model r = m) (new_model_popularity_entries st1))) \<and>
         (\<forall>r \<in> set (new_model_popularity_entries st1).
              p_model r = m \<longrightarrow> p0 < p_total_count r \<and> p_total_count r \<le> prior_of ev P st1 m)"
proof (cases "new_of st info = []")
  case True
  then have "st1 = st" using process_group_fields(3)[OF g] by simp
  then show ?thesis using lo s b by simp
next
  case False
  let ?n = "int (length (new_of st info))"
  let ?e = "entry_of cur dk m' ?n (prior_of ev P st m' + ?n)"
  have n: "1 \<le> ?n" using False by (cases "new_of st info") simp_all
  from process_group_fields(4)[OF g False] have
    mh: "models_historical_count st1 =
           (models_historical_count st)(m' \<mapsto> prior_of ev P st m' + ?n)"
    and ne: "new_model_popularity_entries st1 =
           new_model_popularity_entries st @ (if (dk, m') \<notin> keys then [?e] else [])"
    by blast+
  show ?thesis
  proof (cases "m' = m")
    case other: False
    have p: "prior_of ev P st1 m = prior_of ev P st m"
      using other by (simp add: prior_of_def mh)
    have f: "filter (\<lambda>r. p_model r = m) (new_model_popularity_entries st1) =
          filter (\<lambda>r. p_model r = m) (new_model_popularity_entries st)"
      using other by (simp add: ne entry_of_def)
    have "\<forall>r \<in> set (new_model_popularity_entries st1).
              p_model r = m \<longrightarrow> r \<in> set (new_model_popularity_entries st)"
      using other by (auto simp: ne entry_of_def)
    then show ?thesis unfolding p f using lo s b by blast
  next
    case same: True
    have p: "prior_of ev P st1 m = prior_of ev P st m + ?n"
      using same by (simp add: prior_of_def mh)
    have e: "p_total_count ?e = prior_of ev P st m + ?n" "p_model ?e = m"
      using same by (simp_all add: entry_of_def)
    have old: "\<forall>r \<in> set (filter (\<lambda>r. p_model r = m) (new_model_popularity_entries st)).
                 p_total_count r < prior_of ev P st m + ?n"
    proof
      fix r assume "r \<in> set (filter (\<lambda>r. p_model r = m) (new_model_popularity_entries st))"
      then have "p_total_count r \<le> prior_of ev P st m" using b by simp
      then show "p_total_count r < prior_of ev P st m + ?n" using n by linarith
    qed
    have srt: "sorted_wrt (<) (map p_total_count
              (filter (\<lambda>r. p_model r = m) (new_model_popularity_entries st1)))"
    proof (cases "(dk, m') \<in> keys")
      case True
      then show ?thesis using s by (simp add: ne)
    next
      case False
      then have "filter (\<lambda>r. p_model r = m) (new_model_popularity_entries st1) =
                 filter (\<lambda>r. p_model r = m) (new_model_popularity_entries st) @ [?e]"
        using e(2) by (simp add: ne)
      then show ?thesis using s old e(1) by (simp add: sorted_wrt_append)
    qed
    have bnd: "\<forall>r \<in> set (new_model_popularity_entries st1).
              p_model r = m \<longrightarrow> p0 < p_total_count r \<and> p_total_count r \<le> prior_of ev P st1 m"
    proof (intro ballI impI)
      fix r assume r: "r \<in> set (new_model_popularity_entries st1)" "p_model r = m"
      then consider "r \<in> set (new_model_popularity_entries st)" | "r = ?e"
        unfolding ne by (auto split: if_splits)
      then show "p0 < p_total_count r \<and> p_total_count r \<le> prior_of ev P st1 m"
      proof cases
        case 1
        then have "p0 < p_total_count r \<and> p_total_count r \<le> prior_of ev P st m"
          using b r(2) by blast
        then show ?thesis using p n by linarith
      next
        case 2
        then have "p_total_count r = prior_of ev P st m + ?n" using e(1) by simp
        then show ?thesis using p lo n by linarith
      qed
    qed
    have "p0 \<le> prior_of ev P st1 m" using p lo n by linarith
    then show ?thesis using srt bnd by blast
  qed
qed

lemma groups_loop_increasing:
  assumes "groups_loop ev P keys cur md st = Inr st'"
    and "p0 \<le> prior_of ev P st m"
    and "sorted_wrt (<) (map p_total_count
              (filter (\<lambda>r. p_model r = m) (new_model_popularity_entries st)))"
    and "\<forall>r \<in> set (new_model_popularity_entries st).
              p_model r = m \<longrightarrow> p0 < p_total_count r \<and> p_total_count r \<le> prior_of ev P st m"
  shows "p0 \<le> prior_of ev P st' m \<and>
         sorted_wrt (<) (map p_total_count
              (filter (\<lambda>r. p_model r = m) (new_model_popularity_entries st'))) \<and>
         (\<forall>r \<in> set (new_model_popularity_entries st').
              p_model r = m \<longrightarrow> p0 < p_total_count r \<and> p_total_count r \<le> prior_of ev P st' m)"
  using assms
proof (induction md arbitrary: st)
  case Nil
  then show ?case by simp
next
  case (Cons item md)
  obtain dk m' info where item: "item = ((dk, m'), info)" by (metis prod.exhaust)
  from Cons.prems(1) obtain st1 where
    g: "process_group ev P keys cur ((dk, m'), info) st = Inr st1"
    and r: "groups_loop ev P keys cur md st1 = Inr st'"
    by (auto simp: item split: sum.splits)
  from process_group_increasing[OF g Cons.prems(2) Cons.prems(3) Cons.prems(4)]
  have a: "p0 \<le> prior_of ev P st1 m"
    and b: "sorted_wrt (<) (map p_total_count
              (filter (\<lambda>r. p_model r = m) (new_model_popularity_entries st1)))"
    and c: "\<forall>r \<in> set (new_model_popularity_entries st1).
              p_model r = m \<longrightarrow> p0 < p_total_count r \<and> p_total_count r \<le> prior_of ev P st1 m"
    by blast+
  from Cons.IH[OF r a b c] show ?case .
qed

lemma commit_appends_entries:
  assumes g: "groups_loop ev (db_popularity d) (popularity_key ` set (db_popularity d)) cur md
                (initial_state d) = Inr st"
    and i: "insert_popularity_batches ev (batches batch_size (new_model_popularity_entries st))
              (db_popularity d, statements st) = Inr (pop, n)"
    and dmd: "distinct (map fst md)"
  shows "pop = db_popularity d @ new_model_popularity_entries st"
proof -
  let ?new = "new_model_popularity_entries st"
  have dn: "distinct (map popularity_key ?new)"
    by (rule groups_loop_distinct[OF g dmd]) (simp_all add: initial_state_def)
  from groups_loop_entries[OF g] have
    "\<forall>r \<in> set ?new. popularity_key r \<notin> popularity_key ` set (db_popularity d)"
    by (auto simp: initial_state_def)
  then have dj: "popularity_key ` set ?new \<inter> popularity_key ` set (db_popularity d) = {}"
    by blast
  have cb: "concat (batches batch_size ?new) = ?new"
    by (rule concat_batches) (simp add: batch_size_def)
  show ?thesis
    using insert_popularity_batches_exact[OF i] dn dj unfolding cb by simp
qed

text \<open>
  What does hold of the order of the cumulative counts: when the count a cycle
  reads for a model is at least the total of every persisted bucket of the
  model, the buckets the cycle writes for the model carry strictly increasing
  totals in the order they are written, each above the total of every bucket
  persisted before.
\<close>

theorem cumulative_counts_increase_within_cycle:
  assumes c: "execute_task w ev source d = (r, d', tr)"
    and top: "\<forall>a \<in> set (db_popularity d). p_model a = m \<longrightarrow>
                p_total_count a \<le> initial_historical_count ev (db_popularity d) m"
  shows "sorted_wrt (<) (map p_total_count
           (written_for (db_popularity d) (db_popularity d') m)) \<and>
         (\<forall>a \<in> set (db_popularity d). \<forall>b \<in> set (written_for (db_popularity d) (db_popularity d') m).
            p_model a = m \<longrightarrow> p_total_count a < p_total_count b)"
proof -
  let ?P = "db_popularity d"
  have unchanged: "db_popularity d' = ?P \<Longrightarrow> ?thesis"
    by (simp add: written_for_def)
  show ?thesis
  proof (cases rule: execute_task_cases[of ev w source d])
    case source_error
    then show ?thesis using c unchanged by simp
  next
    case no_experiments
    then show ?thesis using c unchanged by simp
  next
    case (process_error exps e)
    then show ?thesis using c unchanged by simp
  next
    case (persist exps md r1 d1 tr1 d2)
    have d2: "d2 = d'" using persist(5) c by simp
    show ?thesis
    proof (cases rule: update_timescaledb_cases[of ev md "current_time w" d])
      case (rollback e)
      then have "d1 = d" using persist(4) by simp
      then show ?thesis using unchanged persist(7) d2 by simp
    next
      case (commit st pop n d1')
      have d1: "d1' = d1" using commit(4) persist(4) by simp
      let ?new = "new_model_popularity_entries st"
      let ?p0 = "initial_historical_count ev ?P m"
      have P': "db_popularity d' = ?P @ ?new"
        using commit_appends_entries[OF commit(1,2) process_experiments_distinct[OF persist(3)]]
          commit(6) d1 persist(7) d2 by simp
      have i0: "?p0 \<le> prior_of ev ?P (initial_state d) m"
        by (simp add: prior_of_def initial_state_def)
      have i1: "sorted_wrt (<) (map p_total_count
              (filter (\<lambda>r. p_model r = m) (new_model_popularity_entries (initial_state d))))"
        by (simp add: initial_state_def)
      have i2: "\<forall>r \<in> set (new_model_popularity_entries (initial_state d)).
              p_model r = m \<longrightarrow> ?p0 < p_total_count r \<and>
                p_total_count r \<le> prior_of ev ?P (initial_state d) m"
        by (simp add: initial_state_def)
      from groups_loop_increasing[OF commit(1) i0 i1 i2] have
        s: "sorted_wrt (<) (map p_total_count (filter (\<lambda>r. p_model r = m) ?new))"
        and b: "\<forall>r \<in> set ?new. p_model r = m \<longrightarrow> ?p0 < p_total_count r"
        by blast+
      have w: "written_for ?P (db_popularity d') m = filter (\<lambda>r. p_model r = m) ?new"
        by (simp add: written_for_def P')
      have "\<forall>a \<in> set ?P. \<forall>b \<in> set (filter (\<lambda>r. p_model r = m) ?new).
            p_model a = m \<longrightarrow> p_total_count a < p_total_count b"
      proof (intro ballI impI)
        fix a b' assume "a \<in> set ?P" "b' \<in> set (filter (\<lambda>r. p_model r = m) ?new)" "p_model a = m"
        then have "p_total_count a \<le> ?p0" "?p0 < p_total_count b'"
          using top b by auto
        then show "p_total_count a < p_total_count b'" by linarith
      qed
      then show ?thesis unfolding w using s by blast
    qed
  qed
qed

theorem cumulative_counts_increase_within_cycle_witness:
  "sorted_wrt (<) (map p_total_count
     (written_for (db_popularity empty_db)
        (db_popularity (fst (snd (execute_task worker_5 no_faults history_before empty_db))))
        ''EC-Earth'')) \<and>
   length (written_for (db_popularity empty_db)
        (db_popularity (fst (snd (execute_task worker_5 no_faults history_before empty_db))))
        ''EC-Earth'') = 3"
proof -
  have tp: "\<And>x :: error option \<times> db \<times> event list. x = (fst x, fst (snd x), snd (snd x))"
    by simp
  have top: "\<forall>a \<in> set (db_popularity empty_db). p_model a = ''EC-Earth'' \<longrightarrow>
                p_total_count a \<le> initial_historical_count no_faults (db_popularity empty_db) ''EC-Earth''"
    by (simp add: empty_db_def)
  have l: "length (written_for (db_popularity empty_db)
        (db_popularity (fst (snd (execute_task worker_5 no_faults history_before empty_db))))
        ''EC-Earth'') = 3"
    by (simp add: written_for_def cycle_defs history_before_def worker_5_def)
  from cumulative_counts_increase_within_cycle[OF tp top] l show ?thesis by blast
qed

end
